theory Spec2Isabelle
  imports Main
begin

section \<open>Python strings\<close>

text \<open>
  A Python \<^verbatim>\<open>str\<close> is a sequence of Unicode code points. A HOL \<^typ>\<open>char\<close> is one
  byte, so scraped text is modelled as a list of code points (\<^typ>\<open>nat\<close>); the
  program's own ASCII literals are written as HOL strings and converted with \<open>py\<close>.
\<close>

type_synonym pystr = "nat list"

definition py :: "string \<Rightarrow> pystr" where
  "py s = map of_char s"

text \<open>
  \<^verbatim>\<open>str.isspace\<close> for one code point: the characters CPython classifies as
  whitespace. \<^verbatim>\<open>str.strip()\<close> and the \<^verbatim>\<open>\s\<close> class of \<^verbatim>\<open>re\<close> (on \<^verbatim>\<open>str\<close>
  patterns) both use this set.
\<close>

definition is_space :: "nat \<Rightarrow> bool" where
  "is_space c \<longleftrightarrow>
     (9 \<le> c \<and> c \<le> 13) \<or> (28 \<le> c \<and> c \<le> 32) \<or> c = 133 \<or> c = 160 \<or> c = 5760 \<or>
     (8192 \<le> c \<and> c \<le> 8202) \<or> c = 8232 \<or> c = 8233 \<or> c = 8239 \<or> c = 8287 \<or> c = 12288"

text \<open>The class \<^verbatim>\<open>[0-9]\<close>: the ten ASCII digits only.\<close>

definition is_digit :: "nat \<Rightarrow> bool" where
  "is_digit c \<longleftrightarrow> 48 \<le> c \<and> c \<le> 57"

text \<open>\<^verbatim>\<open>s.strip()\<close>: whitespace removed from both ends.\<close>

definition py_strip :: "pystr \<Rightarrow> pystr" where
  "py_strip s = rev (dropWhile is_space (rev (dropWhile is_space s)))"

text \<open>\<^verbatim>\<open>s.replace(a, b)\<close> for one-character \<open>a\<close>: \<open>b\<close> is a string, possibly empty.\<close>

definition py_replace1 :: "nat \<Rightarrow> pystr \<Rightarrow> pystr \<Rightarrow> pystr" where
  "py_replace1 a b s = concat (map (\<lambda>c. if c = a then b else [c]) s)"

section \<open>The regular expression of the price pattern\<close>

text \<open>
  \<^verbatim>\<open>PRICE_REGEX = re.compile(r"-?\$?\s*([0-9]{1,3}(?:,[0-9]{3})*(?:\.[0-9]{2})|[0-9]+(?:\.[0-9]{2}))")\<close>

  The pattern is kept as a syntax tree. Every quantifier of the pattern is greedy and is an
  instance of \<open>Rep lo hi\<close> (\<^verbatim>\<open>?\<close> is \<open>Rep 0 (Some 1)\<close>, \<^verbatim>\<open>*\<close> is \<open>Rep 0 None\<close>,
  \<^verbatim>\<open>+\<close> is \<open>Rep 1 None\<close>, \<^verbatim>\<open>{1,3}\<close> is \<open>Rep 1 (Some 3)\<close>).
\<close>

datatype cls = Lit nat | Digit | Space

fun cls_mem :: "cls \<Rightarrow> nat \<Rightarrow> bool" where
  "cls_mem (Lit a) c = (c = a)"
| "cls_mem Digit c = is_digit c"
| "cls_mem Space c = is_space c"

datatype rx = Chr cls | Seq rx rx | Alt rx rx | Rep nat "nat option" rx

fun dec_hi :: "nat option \<Rightarrow> nat option" where
  "dec_hi None = None"
| "dec_hi (Some k) = Some (k - 1)"

text \<open>
  The backtracking matcher of \<^verbatim>\<open>re\<close>, as a list of successes: \<open>rx_match r s\<close> is the
  list of the remainders of \<open>s\<close> after each way of matching \<open>r\<close> at the start of \<open>s\<close>,
  in the order in which the engine tries them (left alternative first, more repetitions
  first). The engine takes the first one that lets the rest of the pattern match. An
  iteration of a repetition has to consume input; the repeated parts of this pattern
  consume one or four characters each.
\<close>

function rx_match :: "rx \<Rightarrow> pystr \<Rightarrow> pystr list" where
  "rx_match (Chr k) s = (case s of [] \<Rightarrow> [] | c # cs \<Rightarrow> if cls_mem k c then [cs] else [])"
| "rx_match (Seq a b) s = concat (map (rx_match b) (rx_match a s))"
| "rx_match (Alt a b) s = rx_match a s @ rx_match b s"
| "rx_match (Rep lo hi r) s =
     (if hi = Some 0 then []
      else concat (map (\<lambda>s'. if length s' < length s
                               then rx_match (Rep (lo - 1) (dec_hi hi) r) s' else [])
                       (rx_match r s)))
     @ (if lo = 0 then [s] else [])"
  by pat_completeness auto
termination
  by (relation "measures [\<lambda>(r, s). size r, \<lambda>(r, s). length s]") auto

definition PRICE_REGEX_prefix :: rx where
  "PRICE_REGEX_prefix =
     Seq (Rep 0 (Some 1) (Chr (Lit 45)))
       (Seq (Rep 0 (Some 1) (Chr (Lit 36))) (Rep 0 None (Chr Space)))"

definition two_decimals :: rx where
  "two_decimals = Seq (Chr (Lit 46)) (Rep 2 (Some 2) (Chr Digit))"

definition PRICE_REGEX_group1 :: rx where
  "PRICE_REGEX_group1 =
     Alt (Seq (Rep 1 (Some 3) (Chr Digit))
            (Seq (Rep 0 None (Seq (Chr (Lit 44)) (Rep 3 (Some 3) (Chr Digit)))) two_decimals))
         (Seq (Rep 1 None (Chr Digit)) two_decimals)"

text \<open>
  A match object: where the match starts, the whole match (\<^verbatim>\<open>group(0)\<close>) and the text
  of the capturing group (\<^verbatim>\<open>group(1)\<close>).
\<close>

record match_obj =
  m_start :: nat
  m_group0 :: pystr
  m_group1 :: pystr

text \<open>
  \<^verbatim>\<open>PRICE_REGEX.match\<close> at the start of \<open>s\<close>: the first way, in backtracking order, to
  match the prefix and then the group.
\<close>

definition price_match_here :: "pystr \<Rightarrow> (pystr \<times> pystr) option" where
  "price_match_here s =
     (case concat (map (\<lambda>r1. map (Pair r1) (rx_match PRICE_REGEX_group1 r1))
                       (rx_match PRICE_REGEX_prefix s)) of
        [] \<Rightarrow> None
      | (r1, r2) # _ \<Rightarrow> Some (take (length s - length r2) s, take (length r1 - length r2) r1))"

text \<open>\<^verbatim>\<open>PRICE_REGEX.search\<close>: the match at the leftmost position that has one.\<close>

fun price_search_from :: "nat \<Rightarrow> pystr \<Rightarrow> match_obj option" where
  "price_search_from i s =
     (case price_match_here s of
        Some (g0, g1) \<Rightarrow> Some \<lparr>m_start = i, m_group0 = g0, m_group1 = g1\<rparr>
      | None \<Rightarrow> (case s of [] \<Rightarrow> None | c # cs \<Rightarrow> price_search_from (Suc i) cs))"

definition PRICE_REGEX_search :: "pystr \<Rightarrow> match_obj option" where
  "PRICE_REGEX_search s = price_search_from 0 s"

section \<open>What the pattern denotes\<close>

text \<open>
  The language of a pattern, independent of any matching strategy: the set of strings
  the pattern describes. The matcher above is related to it below.
\<close>

fun hi_ok :: "nat option \<Rightarrow> nat \<Rightarrow> bool" where
  "hi_ok None n = True"
| "hi_ok (Some k) n = (n \<le> k)"

primrec rx_lang :: "rx \<Rightarrow> pystr set" where
  "rx_lang (Chr k) = {[c] | c. cls_mem k c}"
| "rx_lang (Seq a b) = {u @ v | u v. u \<in> rx_lang a \<and> v \<in> rx_lang b}"
| "rx_lang (Alt a b) = rx_lang a \<union> rx_lang b"
| "rx_lang (Rep lo hi r) =
     {concat ws | ws. set ws \<subseteq> rx_lang r \<and> lo \<le> length ws \<and> hi_ok hi (length ws)}"

primrec consuming :: "rx \<Rightarrow> bool" where
  "consuming (Chr k) = True"
| "consuming (Seq a b) = (consuming a \<or> consuming b)"
| "consuming (Alt a b) = (consuming a \<and> consuming b)"
| "consuming (Rep lo hi r) = (0 < lo \<and> consuming r)"

primrec rx_progress :: "rx \<Rightarrow> bool" where
  "rx_progress (Chr k) = True"
| "rx_progress (Seq a b) = (rx_progress a \<and> rx_progress b)"
| "rx_progress (Alt a b) = (rx_progress a \<and> rx_progress b)"
| "rx_progress (Rep lo hi r) = (consuming r \<and> rx_progress r)"

text \<open>
  The decimal-money number in the words of the specification: an integer part that is
  either one to three digits followed by groups of a comma and three digits, or a plain
  run of digits; then a point and exactly two digits. Code point 44 is the comma, 46 the
  point, 36 the dollar sign, 45 the minus sign.
\<close>

definition digits :: "pystr \<Rightarrow> bool" where
  "digits w \<longleftrightarrow> list_all is_digit w"

definition thousands_grouped :: "pystr \<Rightarrow> bool" where
  "thousands_grouped b \<longleftrightarrow>
     (\<exists>d gs. b = d @ concat (map ((#) 44) gs) \<and> 1 \<le> length d \<and> length d \<le> 3 \<and> digits d \<and>
        list_all (\<lambda>g. length g = 3 \<and> digits g) gs)"

definition money_number :: "pystr \<Rightarrow> bool" where
  "money_number w \<longleftrightarrow>
     (\<exists>b c. w = b @ 46 # c \<and> length c = 2 \<and> digits c \<and>
        (thousands_grouped b \<or> (b \<noteq> [] \<and> digits b)))"

text \<open>
  A text contains a money number when some substring of it is one; its first money number
  is the one that starts leftmost (there is at most one, see \<open>first_money_number_unique\<close>).
\<close>

definition contains_money_number :: "pystr \<Rightarrow> bool" where
  "contains_money_number s \<longleftrightarrow> (\<exists>u g v. s = u @ g @ v \<and> money_number g)"

definition no_money_number_before :: "pystr \<Rightarrow> nat \<Rightarrow> bool" where
  "no_money_number_before s k \<longleftrightarrow>
     (\<forall>u' g' v'. s = u' @ g' @ v' \<and> money_number g' \<longrightarrow> k \<le> length u')"

definition first_money_number :: "pystr \<Rightarrow> pystr \<Rightarrow> bool" where
  "first_money_number s g \<longleftrightarrow>
     (\<exists>u v. s = u @ g @ v \<and> money_number g \<and> no_money_number_before s (length u))"

section \<open>The price normalizer\<close>

text \<open>
  \<^verbatim>\<open>
  def clean_price(raw: str) -> str:
      if not raw:
          return ""
      m = PRICE_REGEX.search(raw.replace(NBSP, " ").strip())   # NBSP: the string U+00A0
      if not m:
          return raw.strip()
      return m.group(1).replace(",", "")
  \<close>
\<close>

definition clean_price :: "pystr \<Rightarrow> pystr" where
  "clean_price raw =
     (if raw = [] then []
      else case PRICE_REGEX_search (py_strip (py_replace1 160 [32] raw)) of
             None \<Rightarrow> py_strip raw
           | Some m \<Rightarrow> py_replace1 44 [] (m_group1 m))"


section \<open>The matcher finds exactly the language\<close>

lemma consuming_not_Nil: "consuming r \<Longrightarrow> [] \<notin> rx_lang r"
proof (induction r)
  case (Rep lo hi r)
  then have lo: "0 < lo" and nr: "[] \<notin> rx_lang r" by auto
  show ?case
  proof
    assume "[] \<in> rx_lang (Rep lo hi r)"
    then obtain ws where ws: "concat ws = []" "set ws \<subseteq> rx_lang r" "lo \<le> length ws"
      by auto
    from lo ws(3) obtain w ws' where "ws = w # ws'" by (cases ws) auto
    with ws(1,2) nr show False by auto
  qed
qed auto

declare rx_match.simps(4) [simp del]


lemma rx_match_Rep_iff:
  "x \<in> set (rx_match (Rep lo hi r) s) \<longleftrightarrow>
     (lo = 0 \<and> x = s) \<or>
     (hi \<noteq> Some 0 \<and> (\<exists>s1\<in>set (rx_match r s). length s1 < length s \<and>
        x \<in> set (rx_match (Rep (lo - 1) (dec_hi hi) r) s1)))"
  by (auto simp: rx_match.simps(4) [of lo hi r s] split: if_splits)

lemma rx_match_sound:
  "s' \<in> set (rx_match r s) \<Longrightarrow> \<exists>w. s = w @ s' \<and> w \<in> rx_lang r"
proof (induction r s arbitrary: s' rule: rx_match.induct)
  case (1 k s)
  then show ?case by (auto split: list.splits if_splits)
next
  case (2 a b s)
  from "2.prems" obtain s1 where s1: "s1 \<in> set (rx_match a s)" and s': "s' \<in> set (rx_match b s1)"
    by auto
  from "2.IH"(1) [OF s1] obtain u where u: "s = u @ s1" "u \<in> rx_lang a" by blast
  from "2.IH"(2) [OF s1 s'] obtain v where v: "s1 = v @ s'" "v \<in> rx_lang b" by blast
  from u v have "s = (u @ v) @ s'" "u @ v \<in> rx_lang (Seq a b)" by auto
  then show ?case by blast
next
  case (3 a b s)
  then show ?case by auto
next
  case (4 lo hi r s)
  from "4.prems" consider
    (stop) "lo = 0" "s' = s"
    | (iter) s1 where "hi \<noteq> Some 0" "s1 \<in> set (rx_match r s)" "length s1 < length s"
        "s' \<in> set (rx_match (Rep (lo - 1) (dec_hi hi) r) s1)"
    by (auto simp: rx_match.simps(4) [of lo hi r s] split: if_splits)
  then show ?case
  proof cases
    case stop
    have "concat [] = ([]::pystr)" "set [] \<subseteq> rx_lang r" by auto
    with stop have "[] \<in> rx_lang (Rep lo hi r)"
      by (cases hi) (auto intro!: exI [of _ "[]"])
    with stop show ?thesis by auto
  next
    case iter
    from "4.IH"(1) [OF iter(1,2)] obtain w1 where w1: "s = w1 @ s1" "w1 \<in> rx_lang r" by blast
    from "4.IH"(2) [OF iter(1,2,3,4)] obtain w2 where w2: "s1 = w2 @ s'"
      "w2 \<in> rx_lang (Rep (lo - 1) (dec_hi hi) r)" by blast
    from w2(2) obtain ws where ws: "w2 = concat ws" "set ws \<subseteq> rx_lang r" "lo - 1 \<le> length ws"
      "hi_ok (dec_hi hi) (length ws)" by auto
    from iter(1) ws(4) have "hi_ok hi (length (w1 # ws))" by (cases hi) auto
    moreover from ws(3) have "lo \<le> length (w1 # ws)" by auto
    moreover from w1(2) ws(2) have "set (w1 # ws) \<subseteq> rx_lang r" by auto
    moreover have "w1 @ w2 = concat (w1 # ws)" using ws(1) by simp
    ultimately have "w1 @ w2 \<in> rx_lang (Rep lo hi r)" unfolding rx_lang.simps by blast
    with w1(1) w2(1) show ?thesis by auto
  qed
qed


lemma rx_match_complete:
  "rx_progress r \<Longrightarrow> w \<in> rx_lang r \<Longrightarrow> s' \<in> set (rx_match r (w @ s'))"
proof (induction r "w @ s'" arbitrary: w s' rule: rx_match.induct)
  case (1 k)
  then show ?case by auto
next
  case (2 a b)
  from "2.prems" obtain u v where uv: "w = u @ v" "u \<in> rx_lang a" "v \<in> rx_lang b" by auto
  from "2.prems" have pa: "rx_progress a" and pb: "rx_progress b" by auto
  have a: "v @ s' \<in> set (rx_match a (w @ s'))"
    using "2.hyps"(1) [of u "v @ s'"] uv pa by simp
  have "s' \<in> set (rx_match b (v @ s'))"
    using "2.hyps"(2) [OF a pb uv(3)] .
  with a show ?case by auto
next
  case (3 a b)
  then show ?case by auto
next
  case (4 lo hi r)
  from "4.prems" obtain ws where ws: "w = concat ws" "set ws \<subseteq> rx_lang r" "lo \<le> length ws"
    "hi_ok hi (length ws)" by auto
  from "4.prems" have cr: "consuming r" and pr: "rx_progress r" by auto
  show ?case
  proof (cases ws)
    case Nil
    with ws have "lo = 0 \<and> s' = w @ s'" by simp
    then show ?thesis by (rule iffD2 [OF rx_match_Rep_iff, OF disjI1])
  next
    case (Cons w1 ws')
    with ws(2) have w1: "w1 \<in> rx_lang r" by simp
    with cr have ne: "w1 \<noteq> []" using consuming_not_Nil by blast
    from Cons ws(4) have h0: "hi \<noteq> Some 0" by (cases hi) auto
    let ?s1 = "concat ws' @ s'"
    have eq: "w @ s' = w1 @ ?s1" using ws(1) Cons by simp
    have m1: "?s1 \<in> set (rx_match r (w @ s'))"
      using "4.hyps"(1) [OF h0 eq pr w1] eq by simp
    have len: "length ?s1 < length (w @ s')" using eq ne by simp
    have "concat ws' \<in> rx_lang (Rep (lo - 1) (dec_hi hi) r)"
    proof -
      from ws(2) Cons have "set ws' \<subseteq> rx_lang r" by auto
      moreover from ws(3) Cons have "lo - 1 \<le> length ws'" by auto
      moreover from ws(4) Cons have "hi_ok (dec_hi hi) (length ws')" by (cases hi) auto
      ultimately show ?thesis by auto
    qed
    with "4.hyps"(2) [OF h0 m1 len] "4.prems"(1)
    have "s' \<in> set (rx_match (Rep (lo - 1) (dec_hi hi) r) ?s1)" by simp
    with h0 m1 len show ?thesis by (blast intro: iffD2 [OF rx_match_Rep_iff])
  qed
qed


section \<open>The pattern in plain terms\<close>

lemma lang_Rep_Chr:
  "rx_lang (Rep lo hi (Chr k)) = {w. list_all (cls_mem k) w \<and> lo \<le> length w \<and> hi_ok hi (length w)}"
proof (intro set_eqI iffI)
  fix w assume "w \<in> rx_lang (Rep lo hi (Chr k))"
  then obtain ws where ws: "w = concat ws" "set ws \<subseteq> {[c] | c. cls_mem k c}" "lo \<le> length ws"
    "hi_ok hi (length ws)" by auto
  from ws(2) have "length (concat ws) = length ws \<and> list_all (cls_mem k) (concat ws)"
    by (induction ws) auto
  with ws show "w \<in> {w. list_all (cls_mem k) w \<and> lo \<le> length w \<and> hi_ok hi (length w)}" by simp
next
  fix w assume "w \<in> {w. list_all (cls_mem k) w \<and> lo \<le> length w \<and> hi_ok hi (length w)}"
  then have w: "list_all (cls_mem k) w" "lo \<le> length w" "hi_ok hi (length w)" by auto
  let ?ws = "map (\<lambda>c. [c]) w"
  have "concat ?ws = w" by (induction w) auto
  moreover from w(1) have "set ?ws \<subseteq> rx_lang (Chr k)" by (auto simp: list_all_iff)
  ultimately show "w \<in> rx_lang (Rep lo hi (Chr k))" using w(2,3)
    unfolding rx_lang.simps(4) by (intro CollectI exI [of _ ?ws]) simp
qed

lemma lang_two_decimals:
  "rx_lang two_decimals = {46 # c | c. length c = 2 \<and> digits c}"
  unfolding two_decimals_def rx_lang.simps(2) lang_Rep_Chr
  by (auto simp: digits_def list_all_iff)

lemma lang_comma_group:
  "rx_lang (Seq (Chr (Lit 44)) (Rep 3 (Some 3) (Chr Digit))) = {44 # g | g. length g = 3 \<and> digits g}"
  unfolding rx_lang.simps(2) lang_Rep_Chr
  by (auto simp: digits_def list_all_iff)

lemma lang_comma_groups:
  "rx_lang (Rep 0 None (Seq (Chr (Lit 44)) (Rep 3 (Some 3) (Chr Digit)))) =
     {concat (map ((#) 44) gs) | gs. list_all (\<lambda>g. length g = 3 \<and> digits g) gs}"
proof (intro set_eqI iffI)
  fix w assume "w \<in> rx_lang (Rep 0 None (Seq (Chr (Lit 44)) (Rep 3 (Some 3) (Chr Digit))))"
  then obtain ws where ws: "w = concat ws" "set ws \<subseteq> {44 # g | g. length g = 3 \<and> digits g}"
    unfolding rx_lang.simps(4) lang_comma_group by auto
  from ws(2) have "\<exists>gs. ws = map ((#) 44) gs \<and> list_all (\<lambda>g. length g = 3 \<and> digits g) gs"
  proof (induction ws)
    case Nil
    then show ?case by simp
  next
    case (Cons x xs)
    then obtain gs where gs: "xs = map ((#) 44) gs" "list_all (\<lambda>g. length g = 3 \<and> digits g) gs"
      by auto
    from Cons.prems obtain g where g: "x = 44 # g" "length g = 3" "digits g" by auto
    from gs g have "x # xs = map ((#) 44) (g # gs) \<and> list_all (\<lambda>g. length g = 3 \<and> digits g) (g # gs)"
      by simp
    then show ?case by (rule exI [of _ "g # gs"])
  qed
  with ws(1) show "w \<in> {concat (map ((#) 44) gs) | gs. list_all (\<lambda>g. length g = 3 \<and> digits g) gs}"
    by auto
next
  fix w assume "w \<in> {concat (map ((#) 44) gs) | gs. list_all (\<lambda>g. length g = 3 \<and> digits g) gs}"
  then obtain gs where gs: "w = concat (map ((#) 44) gs)" "list_all (\<lambda>g. length g = 3 \<and> digits g) gs"
    by auto
  from gs(2) have "set (map ((#) 44) gs) \<subseteq> {44 # g | g. length g = 3 \<and> digits g}"
    by (auto simp: list_all_iff)
  with gs(1) show "w \<in> rx_lang (Rep 0 None (Seq (Chr (Lit 44)) (Rep 3 (Some 3) (Chr Digit))))"
    unfolding rx_lang.simps(4) lang_comma_group by (intro CollectI exI [of _ "map ((#) 44) gs"]) simp
qed

lemma lang_group1: "rx_lang PRICE_REGEX_group1 = {w. money_number w}"
proof -
  have d13: "rx_lang (Rep 1 (Some 3) (Chr Digit)) = {d. 1 \<le> length d \<and> length d \<le> 3 \<and> digits d}"
    unfolding lang_Rep_Chr by (auto simp: digits_def list_all_iff)
  have d1: "rx_lang (Rep 1 None (Chr Digit)) = {d. d \<noteq> [] \<and> digits d}"
    unfolding lang_Rep_Chr by (auto simp: digits_def list_all_iff Suc_le_eq)
  have "rx_lang PRICE_REGEX_group1 =
      {d @ cg @ t | d cg t. d \<in> rx_lang (Rep 1 (Some 3) (Chr Digit))
         \<and> cg \<in> rx_lang (Rep 0 None (Seq (Chr (Lit 44)) (Rep 3 (Some 3) (Chr Digit))))
         \<and> t \<in> rx_lang two_decimals}
      \<union> {d @ t | d t. d \<in> rx_lang (Rep 1 None (Chr Digit)) \<and> t \<in> rx_lang two_decimals}"
    unfolding PRICE_REGEX_group1_def rx_lang.simps(2,3) by blast
  also have "\<dots> = {w. money_number w}"
  proof (intro set_eqI iffI)
    fix w
    assume "w \<in> {d @ cg @ t | d cg t. d \<in> rx_lang (Rep 1 (Some 3) (Chr Digit))
         \<and> cg \<in> rx_lang (Rep 0 None (Seq (Chr (Lit 44)) (Rep 3 (Some 3) (Chr Digit))))
         \<and> t \<in> rx_lang two_decimals}
      \<union> {d @ t | d t. d \<in> rx_lang (Rep 1 None (Chr Digit)) \<and> t \<in> rx_lang two_decimals}"
    then consider
      (grouped) d gs c where "w = d @ concat (map ((#) 44) gs) @ 46 # c" "1 \<le> length d"
        "length d \<le> 3" "digits d" "list_all (\<lambda>g. length g = 3 \<and> digits g) gs"
        "length c = 2" "digits c"
      | (plain) d c where "w = d @ 46 # c" "d \<noteq> []" "digits d" "length c = 2" "digits c"
      unfolding d13 d1 lang_comma_groups lang_two_decimals by auto
    then have "money_number w"
    proof cases
      case grouped
      then have "thousands_grouped (d @ concat (map ((#) 44) gs))"
        unfolding thousands_grouped_def by blast
      moreover have "w = (d @ concat (map ((#) 44) gs)) @ 46 # c" using grouped(1) by simp
      ultimately show ?thesis unfolding money_number_def using grouped(6,7) by blast
    next
      case plain
      then show ?thesis unfolding money_number_def by blast
    qed
    then show "w \<in> {w. money_number w}" by simp
  next
    fix w assume "w \<in> {w. money_number w}"
    then obtain b c where bc: "w = b @ 46 # c" "length c = 2" "digits c"
      "thousands_grouped b \<or> (b \<noteq> [] \<and> digits b)"
      unfolding money_number_def by auto
    from bc(2,3) have t: "46 # c \<in> rx_lang two_decimals" unfolding lang_two_decimals by simp
    from bc(4) show "w \<in> {d @ cg @ t | d cg t. d \<in> rx_lang (Rep 1 (Some 3) (Chr Digit))
         \<and> cg \<in> rx_lang (Rep 0 None (Seq (Chr (Lit 44)) (Rep 3 (Some 3) (Chr Digit))))
         \<and> t \<in> rx_lang two_decimals}
      \<union> {d @ t | d t. d \<in> rx_lang (Rep 1 None (Chr Digit)) \<and> t \<in> rx_lang two_decimals}"
    proof
      assume "thousands_grouped b"
      then obtain d gs where dg: "b = d @ concat (map ((#) 44) gs)" "1 \<le> length d" "length d \<le> 3"
        "digits d" "list_all (\<lambda>g. length g = 3 \<and> digits g) gs"
        unfolding thousands_grouped_def by auto
      from dg(2,3,4) have "d \<in> rx_lang (Rep 1 (Some 3) (Chr Digit))" unfolding d13 by simp
      moreover from dg(5) have "concat (map ((#) 44) gs)
          \<in> rx_lang (Rep 0 None (Seq (Chr (Lit 44)) (Rep 3 (Some 3) (Chr Digit))))"
        unfolding lang_comma_groups by blast
      moreover have "w = d @ concat (map ((#) 44) gs) @ 46 # c" using bc(1) dg(1) by simp
      ultimately show ?thesis using t by blast
    next
      assume "b \<noteq> [] \<and> digits b"
      then have "b \<in> rx_lang (Rep 1 None (Chr Digit))" unfolding d1 by simp
      with t bc(1) show ?thesis by blast
    qed
  qed
  finally show ?thesis .
qed


lemma lang_prefix:
  "rx_lang PRICE_REGEX_prefix =
     {a @ b @ c | a b c. (a = [] \<or> a = [45]) \<and> (b = [] \<or> b = [36]) \<and> list_all is_space c}"
proof -
  have opt: "rx_lang (Rep 0 (Some 1) (Chr (Lit x))) = {[], [x]}" for x
    unfolding lang_Rep_Chr
  proof (intro set_eqI iffI)
    fix w assume "w \<in> {w. list_all (cls_mem (Lit x)) w \<and> 0 \<le> length w \<and> hi_ok (Some 1) (length w)}"
    then show "w \<in> {[], [x]}" by (cases w) auto
  qed auto
  have sp: "rx_lang (Rep 0 None (Chr Space)) = {c. list_all is_space c}"
    unfolding lang_Rep_Chr by (auto simp: list_all_iff)
  show ?thesis
    unfolding PRICE_REGEX_prefix_def rx_lang.simps(2) opt sp by auto
qed

lemma prefix_no_digit:
  assumes "p \<in> rx_lang PRICE_REGEX_prefix"
  shows "list_all (\<lambda>c. \<not> is_digit c) p"
proof -
  have "\<not> is_digit 45" "\<not> is_digit 36" "\<And>c. is_space c \<Longrightarrow> \<not> is_digit c"
    by (auto simp: is_digit_def is_space_def)
  with assms show ?thesis unfolding lang_prefix by (auto simp: list_all_iff)
qed

lemma Nil_in_prefix: "[] \<in> rx_lang PRICE_REGEX_prefix"
  unfolding lang_prefix by auto

lemma money_number_shape:
  assumes "money_number g"
  obtains b c where "g = b @ 46 # c" "length c = 2" "digits c" "b \<noteq> []" "is_digit (hd b)"
    "list_all (\<lambda>x. x \<noteq> 46) b"
proof -
  from assms obtain b c where bc: "g = b @ 46 # c" "length c = 2" "digits c"
    "thousands_grouped b \<or> (b \<noteq> [] \<and> digits b)"
    unfolding money_number_def by auto
  have nd: "\<And>x. is_digit x \<Longrightarrow> x \<noteq> 46" by (auto simp: is_digit_def)
  from bc(4) have "b \<noteq> [] \<and> is_digit (hd b) \<and> list_all (\<lambda>x. x \<noteq> 46) b"
  proof
    assume "thousands_grouped b"
    then obtain d gs where dg: "b = d @ concat (map ((#) 44) gs)" "1 \<le> length d" "digits d"
      "list_all (\<lambda>g. length g = 3 \<and> digits g) gs"
      unfolding thousands_grouped_def by auto
    from dg(2) have dne: "d \<noteq> []" by auto
    from dg(4) have "list_all (\<lambda>x. x \<noteq> 46) (concat (map ((#) 44) gs))"
      using nd by (induction gs) (auto simp: digits_def list_all_iff)
    moreover from dg(3) have "list_all (\<lambda>x. x \<noteq> 46) d" using nd by (auto simp: digits_def list_all_iff)
    moreover from dne dg(3) have "is_digit (hd d)" by (cases d) (auto simp: digits_def)
    ultimately show ?thesis using dg(1) dne by simp
  next
    assume "b \<noteq> [] \<and> digits b"
    then show ?thesis using nd by (cases b) (auto simp: digits_def list_all_iff)
  qed
  with bc(1,2,3) that show thesis by blast
qed

lemma money_number_starts_with_digit:
  assumes "money_number g"
  shows "g \<noteq> [] \<and> is_digit (hd g)"
  using assms by (rule money_number_shape) auto

lemma money_number_unique_prefix:
  assumes g1: "money_number g1" and g2: "money_number g2" and eq: "g1 @ x = g2 @ y"
  shows "g1 = g2"
proof -
  from g1 obtain b1 c1 where 1: "g1 = b1 @ 46 # c1" "length c1 = 2" "list_all (\<lambda>x. x \<noteq> 46) b1"
    by (rule money_number_shape)
  from g2 obtain b2 c2 where 2: "g2 = b2 @ 46 # c2" "length c2 = 2" "list_all (\<lambda>x. x \<noteq> 46) b2"
    by (rule money_number_shape)
  have "takeWhile (\<lambda>x. x \<noteq> 46) (g1 @ x) = b1"
    using 1(1,3) by (simp add: takeWhile_tail list_all_iff)
  moreover have "takeWhile (\<lambda>x. x \<noteq> 46) (g2 @ y) = b2"
    using 2(1,3) by (simp add: takeWhile_tail list_all_iff)
  ultimately have b: "b1 = b2" using eq by simp
  with 1 2 have len: "length g1 = length g2" by simp
  from eq have "take (length g1) (g1 @ x) = take (length g1) (g2 @ y)" by simp
  with len show ?thesis by simp
qed

lemma digit_boundary_unique:
  assumes "list_all (\<lambda>c. \<not> is_digit c) p" "list_all (\<lambda>c. \<not> is_digit c) q"
    and "g \<noteq> [] \<and> is_digit (hd g)" "h \<noteq> [] \<and> is_digit (hd h)"
    and "p @ g @ r = q @ h @ r'"
  shows "p = q"
proof -
  from assms(3) obtain a g' where g: "g = a # g'" "is_digit a" by (cases g) auto
  from assms(4) obtain b h' where h: "h = b # h'" "is_digit b" by (cases h) auto
  have "takeWhile (\<lambda>c. \<not> is_digit c) (p @ g @ r) = p"
    using assms(1) g by (simp add: takeWhile_tail list_all_iff)
  moreover have "takeWhile (\<lambda>c. \<not> is_digit c) (q @ h @ r') = q"
    using assms(2) h by (simp add: takeWhile_tail list_all_iff)
  ultimately show ?thesis using assms(5) by simp
qed


lemma price_match_here_None:
  "price_match_here s = None \<longleftrightarrow>
     \<not> (\<exists>p g r. s = p @ g @ r \<and> p \<in> rx_lang PRICE_REGEX_prefix \<and> money_number g)"
proof -
  have pp: "rx_progress PRICE_REGEX_prefix" "rx_progress PRICE_REGEX_group1"
    by (simp_all add: PRICE_REGEX_prefix_def PRICE_REGEX_group1_def two_decimals_def)
  have "price_match_here s = None \<longleftrightarrow>
      concat (map (\<lambda>r1. map (Pair r1) (rx_match PRICE_REGEX_group1 r1))
        (rx_match PRICE_REGEX_prefix s)) = []"
  proof -
    have "(case xs of [] \<Rightarrow> None | (r1, r2) # _ \<Rightarrow> Some (f r1 r2)) = None \<longleftrightarrow> xs = []"
      for xs :: "(pystr \<times> pystr) list" and f :: "pystr \<Rightarrow> pystr \<Rightarrow> pystr \<times> pystr"
      by (cases xs) auto
    then show ?thesis unfolding price_match_here_def .
  qed
  also have "\<dots> \<longleftrightarrow>
      (\<forall>r1\<in>set (rx_match PRICE_REGEX_prefix s). rx_match PRICE_REGEX_group1 r1 = [])"
    by simp
  also have "\<dots> \<longleftrightarrow> \<not> (\<exists>p g r. s = p @ g @ r \<and> p \<in> rx_lang PRICE_REGEX_prefix \<and> money_number g)"
  proof (intro iffI notI)
    assume none: "\<forall>r1\<in>set (rx_match PRICE_REGEX_prefix s). rx_match PRICE_REGEX_group1 r1 = []"
    assume "\<exists>p g r. s = p @ g @ r \<and> p \<in> rx_lang PRICE_REGEX_prefix \<and> money_number g"
    then obtain p g r where *: "s = p @ g @ r" "p \<in> rx_lang PRICE_REGEX_prefix" "money_number g"
      by blast
    from *(3) have "g \<in> rx_lang PRICE_REGEX_group1" by (simp add: lang_group1)
    from rx_match_complete [OF pp(2) this] have "r \<in> set (rx_match PRICE_REGEX_group1 (g @ r))" .
    moreover from rx_match_complete [OF pp(1) *(2)]
    have "g @ r \<in> set (rx_match PRICE_REGEX_prefix s)" using *(1) by simp
    ultimately show False using none by auto
  next
    assume no: "\<not> (\<exists>p g r. s = p @ g @ r \<and> p \<in> rx_lang PRICE_REGEX_prefix \<and> money_number g)"
    show "\<forall>r1\<in>set (rx_match PRICE_REGEX_prefix s). rx_match PRICE_REGEX_group1 r1 = []"
    proof (intro ballI)
      fix r1 assume r1: "r1 \<in> set (rx_match PRICE_REGEX_prefix s)"
      show "rx_match PRICE_REGEX_group1 r1 = []"
      proof (rule ccontr)
        assume "rx_match PRICE_REGEX_group1 r1 \<noteq> []"
        then obtain r2 where r2: "r2 \<in> set (rx_match PRICE_REGEX_group1 r1)"
          by (cases "rx_match PRICE_REGEX_group1 r1") auto
        from rx_match_sound [OF r1] obtain p where p: "s = p @ r1" "p \<in> rx_lang PRICE_REGEX_prefix"
          by blast
        from rx_match_sound [OF r2] obtain g where g: "r1 = g @ r2" "g \<in> rx_lang PRICE_REGEX_group1"
          by blast
        from p g have "s = p @ g @ r2 \<and> p \<in> rx_lang PRICE_REGEX_prefix \<and> money_number g"
          by (simp add: lang_group1)
        with no show False by blast
      qed
    qed
  qed
  finally show ?thesis .
qed

lemma price_match_here_Some:
  assumes "price_match_here s = Some (g0, g1)"
  shows "\<exists>p r. s = p @ g1 @ r \<and> g0 = p @ g1 \<and> p \<in> rx_lang PRICE_REGEX_prefix \<and> money_number g1"
proof -
  from assms obtain r1 r2 rest where hd:
    "concat (map (\<lambda>r1. map (Pair r1) (rx_match PRICE_REGEX_group1 r1))
        (rx_match PRICE_REGEX_prefix s)) = (r1, r2) # rest"
    and g0: "g0 = take (length s - length r2) s" and g1: "g1 = take (length r1 - length r2) r1"
    unfolding price_match_here_def by (auto split: list.splits)
  have "(r1, r2) \<in> set (concat (map (\<lambda>r1. map (Pair r1) (rx_match PRICE_REGEX_group1 r1))
        (rx_match PRICE_REGEX_prefix s)))"
    unfolding hd by simp
  then have r1: "r1 \<in> set (rx_match PRICE_REGEX_prefix s)"
    and r2: "r2 \<in> set (rx_match PRICE_REGEX_group1 r1)" by auto
  from rx_match_sound [OF r1] obtain p where p: "s = p @ r1" "p \<in> rx_lang PRICE_REGEX_prefix"
    by blast
  from rx_match_sound [OF r2] obtain g where g: "r1 = g @ r2" "g \<in> rx_lang PRICE_REGEX_group1"
    by blast
  from p g g0 g1 have "s = p @ g1 @ r2" "g0 = p @ g1" "money_number g1"
    by (simp_all add: lang_group1)
  with p(2) show ?thesis by blast
qed

declare price_search_from.simps [simp del]

lemma price_search_from_None:
  "price_search_from i s = None \<longleftrightarrow> \<not> (\<exists>u g v. s = u @ g @ v \<and> money_number g)"
proof (induction s arbitrary: i)
  case Nil
  have "price_match_here [] = None"
    unfolding price_match_here_None using money_number_starts_with_digit by auto
  moreover have "\<not> (\<exists>u g v. [] = u @ g @ v \<and> money_number g)"
    using money_number_starts_with_digit by auto
  ultimately show ?case by (simp add: price_search_from.simps [of i "[]"])
next
  case (Cons c cs)
  show ?case
  proof (cases "price_match_here (c # cs)")
    case None
    then have no: "\<not> (\<exists>p g r. c # cs = p @ g @ r \<and> p \<in> rx_lang PRICE_REGEX_prefix \<and> money_number g)"
      by (simp add: price_match_here_None)
    have "(\<exists>u g v. c # cs = u @ g @ v \<and> money_number g) \<longleftrightarrow> (\<exists>u g v. cs = u @ g @ v \<and> money_number g)"
    proof
      assume "\<exists>u g v. c # cs = u @ g @ v \<and> money_number g"
      then obtain u g v where *: "c # cs = u @ g @ v" "money_number g" by blast
      show "\<exists>u g v. cs = u @ g @ v \<and> money_number g"
      proof (cases u)
        case Nil
        with * no Nil_in_prefix have False by force
        then show ?thesis ..
      next
        case (Cons a u')
        with * have "cs = u' @ g @ v" by simp
        with *(2) show ?thesis by blast
      qed
    next
      assume "\<exists>u g v. cs = u @ g @ v \<and> money_number g"
      then obtain u g v where "cs = u @ g @ v" "money_number g" by blast
      then have "c # cs = (c # u) @ g @ v \<and> money_number g" by simp
      then show "\<exists>u g v. c # cs = u @ g @ v \<and> money_number g" by blast
    qed
    with None Cons.IH [of "Suc i"] show ?thesis
      by (simp add: price_search_from.simps [of i "c # cs"])
  next
    case (Some m)
    obtain g0 g1 where m: "m = (g0, g1)" by (cases m)
    from price_match_here_Some [OF Some [unfolded m]]
    obtain p r where "c # cs = p @ g1 @ r" "money_number g1" by blast
    then have "\<exists>u g v. c # cs = u @ g @ v \<and> money_number g" by blast
    with Some m show ?thesis by (simp add: price_search_from.simps [of i "c # cs"])
  qed
qed

lemma price_search_from_Some:
  assumes "price_search_from i s = Some m"
  shows "\<exists>u p v. s = u @ p @ m_group1 m @ v \<and> m_start m = i + length u \<and>
           m_group0 m = p @ m_group1 m \<and> p \<in> rx_lang PRICE_REGEX_prefix \<and>
           money_number (m_group1 m) \<and>
           (\<forall>u' g' v'. s = u' @ g' @ v' \<and> money_number g' \<longrightarrow> length u \<le> length u')"
  using assms
proof (induction s arbitrary: i)
  case Nil
  then have "price_match_here [] \<noteq> None"
    by (auto simp: price_search_from.simps [of i "[]"] split: option.splits)
  moreover have "price_match_here [] = None"
    unfolding price_match_here_None using money_number_starts_with_digit by auto
  ultimately show ?case by simp
next
  case (Cons c cs)
  show ?case
  proof (cases "price_match_here (c # cs)")
    case None
    then have no: "\<not> (\<exists>p g r. c # cs = p @ g @ r \<and> p \<in> rx_lang PRICE_REGEX_prefix \<and> money_number g)"
      by (simp add: price_match_here_None)
    from None Cons.prems have "price_search_from (Suc i) cs = Some m"
      by (simp add: price_search_from.simps [of i "c # cs"])
    from Cons.IH [OF this] obtain u p v where *: "cs = u @ p @ m_group1 m @ v"
      "m_start m = Suc i + length u" "m_group0 m = p @ m_group1 m"
      "p \<in> rx_lang PRICE_REGEX_prefix" "money_number (m_group1 m)"
      "\<forall>u' g' v'. cs = u' @ g' @ v' \<and> money_number g' \<longrightarrow> length u \<le> length u'" by blast
    have left: "\<forall>u' g' v'. c # cs = u' @ g' @ v' \<and> money_number g' \<longrightarrow> length (c # u) \<le> length u'"
    proof (intro allI impI)
      fix u' g' v' assume a: "c # cs = u' @ g' @ v' \<and> money_number g'"
      show "length (c # u) \<le> length u'"
      proof (cases u')
        case Nil
        with a no Nil_in_prefix have False by force
        then show ?thesis ..
      next
        case (Cons a u'')
        with a have "cs = u'' @ g' @ v' \<and> money_number g'" by simp
        with *(6) have "length u \<le> length u''" by blast
        with Cons show ?thesis by simp
      qed
    qed
    from * have "c # cs = (c # u) @ p @ m_group1 m @ v" "m_start m = i + length (c # u)" by simp_all
    with *(3,4,5) left show ?thesis by blast
  next
    case (Some gg)
    obtain g0 g1 where gg: "gg = (g0, g1)" by (cases gg)
    from Some gg Cons.prems have m: "m = \<lparr>m_start = i, m_group0 = g0, m_group1 = g1\<rparr>"
      by (simp add: price_search_from.simps [of i "c # cs"])
    from price_match_here_Some [OF Some [unfolded gg]]
    obtain p r where *: "c # cs = p @ g1 @ r" "g0 = p @ g1" "p \<in> rx_lang PRICE_REGEX_prefix"
      "money_number g1" by blast
    from * m have "c # cs = [] @ p @ m_group1 m @ r" "m_start m = i + length ([]::pystr)"
      "m_group0 m = p @ m_group1 m" "money_number (m_group1 m)" by simp_all
    moreover have "\<forall>u' g' v'. c # cs = u' @ g' @ v' \<and> money_number g' \<longrightarrow> length ([]::pystr) \<le> length u'"
      by simp
    ultimately show ?thesis using *(3) by blast
  qed
qed


section \<open>The price normalizer: its contract\<close>

lemma price_search_from_leftmost:
  "price_search_from i s = Some m \<Longrightarrow> s = u' @ v' \<Longrightarrow> i + length u' < m_start m \<Longrightarrow>
     price_match_here v' = None"
proof (induction s arbitrary: i u')
  case Nil
  then have "price_match_here [] \<noteq> None"
    by (auto simp: price_search_from.simps [of i "[]"] split: option.splits)
  moreover have "price_match_here [] = None"
    unfolding price_match_here_None using money_number_starts_with_digit by auto
  ultimately show ?case by simp
next
  case (Cons c cs)
  show ?case
  proof (cases "price_match_here (c # cs)")
    case None
    with Cons.prems(1) have rec: "price_search_from (Suc i) cs = Some m"
      by (simp add: price_search_from.simps [of i "c # cs"])
    show ?thesis
    proof (cases u')
      case Nil
      with Cons.prems(2) None show ?thesis by simp
    next
      case (Cons a u'')
      with Cons.prems(2) have "cs = u'' @ v'" by simp
      moreover from Cons Cons.prems(3) have "Suc i + length u'' < m_start m" by simp
      ultimately show ?thesis using Cons.IH [OF rec] by blast
    qed
  next
    case (Some gg)
    obtain g0 g1 where gg: "gg = (g0, g1)" by (cases gg)
    from Some gg Cons.prems(1) have "m_start m = i"
      by (auto simp: price_search_from.simps [of i "c # cs"])
    with Cons.prems(3) show ?thesis by simp
  qed
qed

text \<open>The number the search captures is the first money number of the text.\<close>

lemma search_first_money_number:
  assumes "PRICE_REGEX_search s = Some m"
  shows "first_money_number s (m_group1 m)"
proof -
  from assms have "price_search_from 0 s = Some m" by (simp add: PRICE_REGEX_search_def)
  from price_search_from_Some [OF this] obtain u p v where *:
    "s = u @ p @ m_group1 m @ v" "p \<in> rx_lang PRICE_REGEX_prefix" "money_number (m_group1 m)"
    "\<forall>u' g' v'. s = u' @ g' @ v' \<and> money_number g' \<longrightarrow> length u \<le> length u'" by blast
  have "length (u @ p) \<le> length u'" if occ: "s = u' @ g' @ v'" "money_number g'" for u' g' v'
  proof (rule ccontr)
    assume "\<not> length (u @ p) \<le> length u'"
    then have lt: "length u' < length u + length p" by simp
    from occ *(4) have le: "length u \<le> length u'" by blast
    from money_number_starts_with_digit [OF occ(2)] obtain a g'' where g': "g' = a # g''" "is_digit a"
      by (cases g') auto
    from occ(1) g' have "s ! length u' = a" by (simp add: nth_append)
    moreover have "s ! length u' = p ! (length u' - length u)"
    proof -
      from le lt have "length u' - length u < length p" by simp
      with le show ?thesis unfolding *(1) by (simp add: nth_append)
    qed
    moreover from lt le have "p ! (length u' - length u) \<in> set p" by simp
    ultimately have "a \<in> set p" by simp
    with prefix_no_digit [OF *(2)] g'(2) show False by (auto simp: list_all_iff)
  qed
  moreover from *(1) have "s = (u @ p) @ m_group1 m @ v" by simp
  ultimately show ?thesis unfolding first_money_number_def no_money_number_before_def using *(3) by blast
qed

lemma first_money_number_unique:
  assumes "first_money_number s g" "first_money_number s h"
  shows "g = h"
proof -
  from assms(1) obtain u v where g: "s = u @ g @ v" "money_number g"
    "\<forall>u' g' v'. s = u' @ g' @ v' \<and> money_number g' \<longrightarrow> length u \<le> length u'"
    unfolding first_money_number_def no_money_number_before_def by blast
  from assms(2) obtain x y where h: "s = x @ h @ y" "money_number h"
    "\<forall>u' g' v'. s = u' @ g' @ v' \<and> money_number g' \<longrightarrow> length x \<le> length u'"
    unfolding first_money_number_def no_money_number_before_def by blast
  from g(3) h(1,2) have "length u \<le> length x" by blast
  moreover from h(3) g(1,2) have "length x \<le> length u" by blast
  ultimately have "length u = length x" by simp
  with g(1) h(1) have "g @ v = h @ y" by simp
  with g(2) h(2) show ?thesis by (rule money_number_unique_prefix)
qed

lemma search_None_iff:
  "PRICE_REGEX_search s = None \<longleftrightarrow> \<not> contains_money_number s"
  by (simp add: PRICE_REGEX_search_def price_search_from_None contains_money_number_def)

lemma clean_price_no_match:
  assumes "\<not> contains_money_number (py_strip (py_replace1 160 [32] raw))"
  shows "clean_price raw = py_strip raw"
proof (cases "raw = []")
  case True
  then show ?thesis by (simp add: clean_price_def py_strip_def)
next
  case False
  with assms show ?thesis by (simp add: clean_price_def search_None_iff [symmetric])
qed

lemma clean_price_match:
  assumes "contains_money_number (py_strip (py_replace1 160 [32] raw))"
  shows "\<exists>g. first_money_number (py_strip (py_replace1 160 [32] raw)) g \<and>
           clean_price raw = py_replace1 44 [] g"
proof -
  let ?s = "py_strip (py_replace1 160 [32] raw)"
  from assms obtain m where m: "PRICE_REGEX_search ?s = Some m"
    using search_None_iff [of ?s] by (cases "PRICE_REGEX_search ?s") auto
  have "raw \<noteq> []"
  proof
    assume "raw = []"
    then have "?s = []" by (simp add: py_strip_def py_replace1_def)
    with assms show False
      unfolding contains_money_number_def using money_number_starts_with_digit by auto
  qed
  with m have "clean_price raw = py_replace1 44 [] (m_group1 m)" by (simp add: clean_price_def)
  with search_first_money_number [OF m] show ?thesis by blast
qed

lemmas price_eval = clean_price_def py_def py_strip_def py_replace1_def is_space_def
  PRICE_REGEX_search_def price_search_from.simps price_match_here_def PRICE_REGEX_prefix_def
  PRICE_REGEX_group1_def two_decimals_def is_digit_def rx_match.simps(4)

text \<open>
  Claim C5. \<open>clean_price\<close> is a total function of its input: no step of it can
  raise on a string. After the non-breaking spaces (U+00A0) are replaced by spaces and
  the text is trimmed, if the text contains a decimal-money number (the pattern after its
  optional sign, dollar sign and spaces), the result is the first such number with its
  commas removed; if it contains none, the result is the trimmed raw text.
  \<open>clean("$1,234.56") = "1234.56"\<close> and \<open>clean("N/A") = "N/A"\<close>.
\<close>

theorem clean_price_contract:
  "(contains_money_number (py_strip (py_replace1 160 [32] raw)) \<longrightarrow>
      (\<exists>g. first_money_number (py_strip (py_replace1 160 [32] raw)) g \<and>
           clean_price raw = py_replace1 44 [] g))
   \<and> (\<not> contains_money_number (py_strip (py_replace1 160 [32] raw)) \<longrightarrow>
      clean_price raw = py_strip raw)
   \<and> clean_price (py ''$1,234.56'') = py ''1234.56''
   \<and> clean_price (py ''N/A'') = py ''N/A''"
proof (intro conjI impI)
  show "clean_price (py ''$1,234.56'') = py ''1234.56''" by (simp add: price_eval)
  show "clean_price (py ''N/A'') = py ''N/A''" by (simp add: price_eval)
qed (erule clean_price_match, erule clean_price_no_match)

theorem clean_price_contract_witness:
  "contains_money_number (py_strip (py_replace1 160 [32] (py ''Bal: $1,234.56 USD'')))
   \<and> (\<exists>g. first_money_number (py_strip (py_replace1 160 [32] (py ''Bal: $1,234.56 USD''))) g \<and>
           clean_price (py ''Bal: $1,234.56 USD'') = py_replace1 44 [] g)
   \<and> \<not> contains_money_number (py_strip (py_replace1 160 [32] (py '' N/A '')))
   \<and> clean_price (py '' N/A '') = py_strip (py '' N/A '')"
proof -
  have "PRICE_REGEX_search (py_strip (py_replace1 160 [32] (py ''Bal: $1,234.56 USD''))) \<noteq> None"
    by (simp add: price_eval)
  then have yes: "contains_money_number (py_strip (py_replace1 160 [32] (py ''Bal: $1,234.56 USD'')))"
    by (simp add: search_None_iff)
  have "PRICE_REGEX_search (py_strip (py_replace1 160 [32] (py '' N/A ''))) = None"
    by (simp add: price_eval)
  then have no: "\<not> contains_money_number (py_strip (py_replace1 160 [32] (py '' N/A '')))"
    by (simp add: search_None_iff)
  from yes no clean_price_contract [of "py ''Bal: $1,234.56 USD''"]
    clean_price_contract [of "py '' N/A ''"]
  show ?thesis by blast
qed


section \<open>The price normalizer: signs and clean input\<close>

lemma py_replace1_id: "a \<notin> set s \<Longrightarrow> py_replace1 a b s = s"
  by (induction s) (auto simp: py_replace1_def)

lemma py_replace1_append: "py_replace1 a b (s @ t) = py_replace1 a b s @ py_replace1 a b t"
  by (simp add: py_replace1_def)

lemma py_strip_around:
  assumes "M \<noteq> []" "\<not> is_space (hd M)" "\<not> is_space (last M)"
  shows "\<exists>A' B'. py_strip (A @ M @ B) = A' @ M @ B' \<and> set A' \<subseteq> set A"
proof -
  have fr: "dropWhile is_space (A @ M @ B) = dropWhile is_space A @ M @ B"
  proof (cases "\<forall>x\<in>set A. is_space x")
    case True
    then have "dropWhile is_space A = []" by simp
    moreover from assms(1,2) have "dropWhile is_space (M @ B) = M @ B" by (cases M) auto
    ultimately show ?thesis using True by (simp add: dropWhile_append)
  next
    case False
    then show ?thesis by (auto simp: dropWhile_append)
  qed
  let ?A = "dropWhile is_space A"
  have bk: "dropWhile is_space (rev (?A @ M @ B)) = dropWhile is_space (rev B) @ rev M @ rev ?A"
  proof (cases "\<forall>x\<in>set (rev B). is_space x")
    case True
    from assms(1,3) have "dropWhile is_space (rev M @ rev ?A) = rev M @ rev ?A"
      by (cases "rev M") (auto simp: last_rev [symmetric] hd_rev)
    with True show ?thesis by (simp add: dropWhile_append)
  next
    case False
    then show ?thesis by (auto simp: dropWhile_append)
  qed
  have "py_strip (A @ M @ B) = ?A @ M @ rev (dropWhile is_space (rev B))"
    unfolding py_strip_def fr bk by simp
  moreover have "set ?A \<subseteq> set A" by (rule set_dropWhileD [THEN subsetI])
  ultimately show ?thesis by blast
qed

lemma py_strip_id:
  assumes "s \<noteq> []" "\<not> is_space (hd s)" "\<not> is_space (last s)"
  shows "py_strip s = s"
proof -
  from assms(1,2) have 1: "dropWhile is_space s = s" by (cases s) auto
  from assms(1,3) have "\<not> is_space (hd (rev s))" by (simp add: hd_rev)
  with assms(1) have 2: "dropWhile is_space (rev s) = rev s" by (cases "rev s") auto
  show ?thesis unfolding py_strip_def 1 2 by simp
qed

lemma money_number_chars:
  assumes "money_number w"
  shows "list_all (\<lambda>x. is_digit x \<or> x = 44 \<or> x = 46) w"
proof -
  from assms obtain b c where bc: "w = b @ 46 # c" "digits c"
    "thousands_grouped b \<or> (b \<noteq> [] \<and> digits b)"
    unfolding money_number_def by auto
  from bc(3) have "list_all (\<lambda>x. is_digit x \<or> x = 44 \<or> x = 46) b"
  proof
    assume "thousands_grouped b"
    then obtain d gs where dg: "b = d @ concat (map ((#) 44) gs)" "digits d"
      "list_all (\<lambda>g. length g = 3 \<and> digits g) gs"
      unfolding thousands_grouped_def by auto
    from dg(3) have "list_all (\<lambda>x. is_digit x \<or> x = 44 \<or> x = 46) (concat (map ((#) 44) gs))"
      by (induction gs) (auto simp: digits_def list_all_iff)
    with dg(1,2) show ?thesis by (auto simp: digits_def list_all_iff)
  next
    assume "b \<noteq> [] \<and> digits b"
    then show ?thesis by (auto simp: digits_def list_all_iff)
  qed
  with bc(1,2) show ?thesis by (auto simp: digits_def list_all_iff)
qed

lemma money_number_ends_with_digit:
  assumes "money_number w"
  shows "is_digit (last w)"
proof -
  from assms obtain b c where bc: "w = b @ 46 # c" "length c = 2" "digits c"
    by (rule money_number_shape)
  from bc(2) have "c \<noteq> []" by auto
  with bc(1) have "last w = last c" by simp
  with bc(3) \<open>c \<noteq> []\<close> show ?thesis by (auto simp: digits_def list_all_iff)
qed

lemma no_number_before_nodigits:
  assumes "list_all (\<lambda>c. \<not> is_digit c) u"
  shows "no_money_number_before (u @ t) (length u)"
proof -
  have "length u \<le> length u'" if occ: "u @ t = u' @ g' @ v'" "money_number g'" for u' g' v'
  proof (rule ccontr)
    assume "\<not> length u \<le> length u'"
    then have lt: "length u' < length u" by simp
    from money_number_starts_with_digit [OF occ(2)] obtain a g'' where g': "g' = a # g''" "is_digit a"
      by (cases g') auto
    have "(u' @ g' @ v') ! length u' = a" using g' by (simp add: nth_append)
    moreover from lt have "(u @ t) ! length u' = u ! length u'" by (simp add: nth_append)
    moreover from lt have "u ! length u' \<in> set u" by simp
    ultimately have "a \<in> set u" using occ(1) by simp
    with assms(1) g'(2) show False by (auto simp: list_all_iff)
  qed
  then show ?thesis unfolding no_money_number_before_def by blast
qed

lemma first_after_nodigits:
  assumes "list_all (\<lambda>c. \<not> is_digit c) u" "money_number w"
  shows "first_money_number (u @ w @ v) w"
  unfolding first_money_number_def
  using no_number_before_nodigits [OF assms(1), of "w @ v"] assms(2) by blast

lemma search_finds_first:
  assumes "first_money_number s w"
  shows "\<exists>m. PRICE_REGEX_search s = Some m \<and> m_group1 m = w"
proof -
  from assms have "contains_money_number s"
    unfolding first_money_number_def no_money_number_before_def contains_money_number_def by blast
  then obtain m where m: "PRICE_REGEX_search s = Some m"
    using search_None_iff [of s] by (cases "PRICE_REGEX_search s") auto
  from search_first_money_number [OF m] assms have "m_group1 m = w"
    by (rule first_money_number_unique)
  with m show ?thesis by blast
qed

lemma clean_price_first:
  assumes "first_money_number (py_strip (py_replace1 160 [32] raw)) w"
  shows "clean_price raw = py_replace1 44 [] w"
proof -
  have "contains_money_number (py_strip (py_replace1 160 [32] raw))"
    using assms unfolding first_money_number_def no_money_number_before_def contains_money_number_def by blast
  from clean_price_match [OF this] obtain g
    where "first_money_number (py_strip (py_replace1 160 [32] raw)) g"
      "clean_price raw = py_replace1 44 [] g" by blast
  with assms first_money_number_unique show ?thesis by blast
qed

lemma not_space_facts:
  "is_digit c \<Longrightarrow> \<not> is_space c" "\<not> is_space 45" "\<not> is_digit 45" "\<not> is_digit 36" "\<not> is_digit 32"
  by (auto simp: is_digit_def is_space_def)

lemma search_signed_number:
  assumes w: "money_number w" and d: "dollar = [] \<or> dollar = [36]"
  shows "PRICE_REGEX_search (45 # dollar @ w @ post)
           = Some \<lparr>m_start = 0, m_group0 = 45 # dollar @ w, m_group1 = w\<rparr>"
proof -
  let ?s = "45 # dollar @ w @ post"
  from d have q: "45 # dollar \<in> rx_lang PRICE_REGEX_prefix"
    unfolding lang_prefix
    by (intro CollectI exI [of _ "[45]"] exI [of _ dollar] exI [of _ "[]"]) auto
  have "?s = (45 # dollar) @ w @ post" by simp
  with q w have "price_match_here ?s \<noteq> None" unfolding price_match_here_None by blast
  then obtain g0 g1 where m: "price_match_here ?s = Some (g0, g1)" by auto
  from price_match_here_Some [OF m] obtain p r where *: "?s = p @ g1 @ r" "g0 = p @ g1"
    "p \<in> rx_lang PRICE_REGEX_prefix" "money_number g1" by blast
  have "p = 45 # dollar"
  proof (rule digit_boundary_unique)
    show "list_all (\<lambda>c. \<not> is_digit c) p" using *(3) by (rule prefix_no_digit)
    show "list_all (\<lambda>c. \<not> is_digit c) (45 # dollar)" using q by (rule prefix_no_digit)
    show "g1 \<noteq> [] \<and> is_digit (hd g1)" using *(4) by (rule money_number_starts_with_digit)
    show "w \<noteq> [] \<and> is_digit (hd w)" using w by (rule money_number_starts_with_digit)
    show "p @ g1 @ r = (45 # dollar) @ w @ post" using *(1) by simp
  qed
  with *(1) have "g1 @ r = w @ post" by simp
  with *(4) w have "g1 = w" by (rule money_number_unique_prefix)
  with m *(2) \<open>p = 45 # dollar\<close> show ?thesis
    by (simp add: PRICE_REGEX_search_def price_search_from.simps [of 0 ?s])
qed

lemma clean_price_drops_sign_raw:
  assumes w: "money_number w" and d: "dollar = [] \<or> dollar = [36]"
    and pre: "list_all (\<lambda>c. \<not> is_digit c) pre"
  shows "clean_price (pre @ 45 # dollar @ w @ post) = py_replace1 44 [] w
    \<and> 45 \<notin> set (clean_price (pre @ 45 # dollar @ w @ post))
    \<and> PRICE_REGEX_search (45 # dollar @ w @ post)
         = Some \<lparr>m_start = 0, m_group0 = 45 # dollar @ w, m_group1 = w\<rparr>"
proof -
  let ?M = "45 # dollar @ w"
  let ?raw = "pre @ 45 # dollar @ w @ post"
  from w have wne: "w \<noteq> []" and lastw: "is_digit (last w)"
    using money_number_starts_with_digit money_number_ends_with_digit by auto
  have chars: "list_all (\<lambda>x. is_digit x \<or> x = 44 \<or> x = 46) w" using w by (rule money_number_chars)
  have odd: "\<not> (is_digit 160 \<or> (160::nat) = 44 \<or> (160::nat) = 46)"
    "\<not> (is_digit 45 \<or> (45::nat) = 44 \<or> (45::nat) = 46)"
    by (simp_all add: is_digit_def)
  have no160: "160 \<notin> set ?M"
    using d chars odd(1) by (auto simp: list_all_iff)
  have "py_replace1 160 [32] ?raw = py_replace1 160 [32] pre @ ?M @ py_replace1 160 [32] post"
    using py_replace1_id [OF no160, of "[32]"] py_replace1_append [of 160 "[32]" pre "?M @ post"]
      py_replace1_append [of 160 "[32]" ?M post] by simp
  moreover have "?M \<noteq> []" "\<not> is_space (hd ?M)" "\<not> is_space (last ?M)"
    using wne lastw not_space_facts by auto
  ultimately obtain A' B' where norm: "py_strip (py_replace1 160 [32] ?raw) = A' @ ?M @ B'"
    and A': "set A' \<subseteq> set (py_replace1 160 [32] pre)"
    using py_strip_around [of ?M "py_replace1 160 [32] pre" "py_replace1 160 [32] post"] by auto
  have "list_all (\<lambda>c. \<not> is_digit c) (py_replace1 160 [32] pre)"
    using pre not_space_facts(5) by (induction pre) (auto simp: py_replace1_def)
  with A' have "list_all (\<lambda>c. \<not> is_digit c) A'" by (auto simp: list_all_iff)
  with d have "list_all (\<lambda>c. \<not> is_digit c) (A' @ 45 # dollar)"
    using not_space_facts by auto
  from first_after_nodigits [OF this w, of B']
  have "first_money_number (py_strip (py_replace1 160 [32] ?raw)) w" using norm by simp
  then have res: "clean_price ?raw = py_replace1 44 [] w" by (rule clean_price_first)
  have "set (py_replace1 44 [] w) \<subseteq> set w" by (auto simp: py_replace1_def split: if_splits)
  with chars odd(2) have "45 \<notin> set (py_replace1 44 [] w)" by (auto simp: list_all_iff)
  with res search_signed_number [OF w d] show ?thesis by simp
qed

lemma prefix_minus_first:
  assumes "x @ 45 # y \<in> rx_lang PRICE_REGEX_prefix"
  shows "x = []"
proof (rule ccontr)
  assume ne: "x \<noteq> []"
  from assms obtain a b c where abc: "x @ 45 # y = a @ b @ c" "a = [] \<or> a = [45]"
    "b = [] \<or> b = [36]" "list_all is_space c"
    unfolding lang_prefix by blast
  have n45: "45 \<notin> set (b @ c)"
    using abc(3,4) not_space_facts(2) by (auto simp: list_all_iff)
  have in45: "45 \<in> set (z @ 45 # y)" for z :: pystr by simp
  from abc(2) show False
  proof
    assume "a = []"
    with abc(1) in45 [of x] have "45 \<in> set (b @ c)" by simp
    with n45 show False ..
  next
    assume "a = [45]"
    with abc(1) have "tl (x @ 45 # y) = b @ c" by simp
    with ne have "tl x @ 45 # y = b @ c" by simp
    with in45 [of "tl x"] have "45 \<in> set (b @ c)" by simp
    with n45 show False ..
  qed
qed

lemma search_Some_decomp:
  assumes "PRICE_REGEX_search s = Some m"
  obtains u0 p v0 where "s = u0 @ p @ m_group1 m @ v0" "m_start m = length u0"
    "m_group0 m = p @ m_group1 m" "p \<in> rx_lang PRICE_REGEX_prefix"
    "money_number (m_group1 m)" "no_money_number_before s (length (u0 @ p))"
proof -
  from assms have "price_search_from 0 s = Some m" by (simp add: PRICE_REGEX_search_def)
  from price_search_from_Some [OF this] obtain u p v where *:
    "s = u @ p @ m_group1 m @ v" "m_start m = length u" "m_group0 m = p @ m_group1 m"
    "p \<in> rx_lang PRICE_REGEX_prefix" "money_number (m_group1 m)"
    "\<forall>u' g' v'. s = u' @ g' @ v' \<and> money_number g' \<longrightarrow> length u \<le> length u'" by auto
  have "length (u @ p) \<le> length u'" if occ: "s = u' @ g' @ v'" "money_number g'" for u' g' v'
  proof (rule ccontr)
    assume "\<not> length (u @ p) \<le> length u'"
    then have lt: "length u' < length u + length p" by simp
    from occ *(6) have le: "length u \<le> length u'" by blast
    from money_number_starts_with_digit [OF occ(2)] obtain a g'' where g': "g' = a # g''" "is_digit a"
      by (cases g') auto
    from occ(1) g' have "s ! length u' = a" by (simp add: nth_append)
    moreover have "s ! length u' = p ! (length u' - length u)"
    proof -
      from le lt have "length u' - length u < length p" by simp
      with le show ?thesis unfolding *(1) by (simp add: nth_append)
    qed
    moreover from lt le have "p ! (length u' - length u) \<in> set p" by simp
    ultimately have "a \<in> set p" by simp
    with prefix_no_digit [OF *(4)] g'(2) show False by (auto simp: list_all_iff)
  qed
  then have "no_money_number_before s (length (u @ p))"
    unfolding no_money_number_before_def by blast
  with * that show thesis by blast
qed

text \<open>
  Claim C6. \<open>clean_price\<close> discards a leading minus sign. For every input whose
  searched text has its first money number, with or without a dollar sign, directly after
  a minus sign (such as \<open>-$1,234.56\<close> or \<open>-12.34\<close>), the result is that number
  without its commas and without the sign. The match starts at the sign: its whole text
  (\<open>group(0)\<close>) holds the sign, the captured group (\<open>group(1)\<close>) does not.
\<close>

theorem clean_price_sign_excluded:
  assumes shape: "py_strip (py_replace1 160 [32] raw) = u @ 45 # dollar @ w @ v"
    and d: "dollar = [] \<or> dollar = [36]"
    and w: "money_number w"
    and nb: "no_money_number_before (py_strip (py_replace1 160 [32] raw)) (length (u @ 45 # dollar))"
  shows "clean_price raw = py_replace1 44 [] w
    \<and> 45 \<notin> set (clean_price raw)
    \<and> PRICE_REGEX_search (py_strip (py_replace1 160 [32] raw))
         = Some \<lparr>m_start = length u, m_group0 = 45 # dollar @ w, m_group1 = w\<rparr>"
proof -
  let ?s = "py_strip (py_replace1 160 [32] raw)"
  let ?q = "45 # dollar"
  have s: "?s = (u @ ?q) @ w @ v" using shape by simp
  with w nb have first: "first_money_number ?s w" unfolding first_money_number_def by blast
  have res: "clean_price raw = py_replace1 44 [] w" using first by (rule clean_price_first)
  have chars: "list_all (\<lambda>x. is_digit x \<or> x = 44 \<or> x = 46) w" using w by (rule money_number_chars)
  have "\<not> (is_digit 45 \<or> (45::nat) = 44 \<or> (45::nat) = 46)" by (simp add: is_digit_def)
  moreover have "set (py_replace1 44 [] w) \<subseteq> set w" by (auto simp: py_replace1_def split: if_splits)
  ultimately have nosign: "45 \<notin> set (py_replace1 44 [] w)" using chars by (auto simp: list_all_iff)
  from search_finds_first [OF first] obtain m where m: "PRICE_REGEX_search ?s = Some m"
    "m_group1 m = w" by blast
  from search_Some_decomp [OF m(1)] m(2) obtain u0 p v0 where *:
    "?s = u0 @ p @ w @ v0" "m_start m = length u0" "m_group0 m = p @ w"
    "p \<in> rx_lang PRICE_REGEX_prefix" "no_money_number_before ?s (length (u0 @ p))"
    by metis
  from d have q: "?q \<in> rx_lang PRICE_REGEX_prefix"
    unfolding lang_prefix
    by (intro CollectI exI [of _ "[45]"] exI [of _ dollar] exI [of _ "[]"]) auto
  have s0: "?s = (u0 @ p) @ w @ v0" using *(1) by simp
  from *(5) s w have "length (u0 @ p) \<le> length (u @ ?q)"
    unfolding no_money_number_before_def by blast
  moreover from nb s0 w have "length (u @ ?q) \<le> length (u0 @ p)"
    unfolding no_money_number_before_def by blast
  ultimately have len: "length (u0 @ p) = length (u @ ?q)" by simp
  from s s0 have "(u0 @ p) @ w @ v0 = (u @ ?q) @ w @ v" by simp
  with len have eq: "u0 @ p = u @ ?q" using append_eq_append_conv by blast
  have le: "length u0 \<le> length u"
  proof (rule ccontr)
    assume "\<not> length u0 \<le> length u"
    then have "0 + length u < m_start m" using *(2) by simp
    moreover have "price_search_from 0 ?s = Some m" using m(1) by (simp add: PRICE_REGEX_search_def)
    moreover have "?s = u @ (?q @ w @ v)" using shape by simp
    ultimately have "price_match_here (?q @ w @ v) = None"
      using price_search_from_leftmost by blast
    with q w show False unfolding price_match_here_None by blast
  qed
  from eq le obtain x where x: "u = u0 @ x" "p = x @ ?q"
    by (auto simp: append_eq_append_conv2)
  from x(2) *(4) have "x = []" using prefix_minus_first [of x dollar] by simp
  with x *(2,3) m(2) have "m = \<lparr>m_start = length u, m_group0 = ?q @ w, m_group1 = w\<rparr>"
    by simp
  with m(1) res nosign show ?thesis by simp
qed

theorem clean_price_sign_excluded_witness:
  "money_number (py ''1,234.56'')
   \<and> clean_price (py ''-$1,234.56'') = py ''1234.56''
   \<and> 45 \<notin> set (clean_price (py ''-$1,234.56''))
   \<and> PRICE_REGEX_search (py ''-$1,234.56'')
         = Some \<lparr>m_start = 0, m_group0 = py ''-$1,234.56'', m_group1 = py ''1,234.56''\<rparr>
   \<and> money_number (py ''12.34'')
   \<and> clean_price (py ''-12.34'') = py ''12.34''"
proof -
  have tg: "thousands_grouped (py ''1,234'')"
    unfolding thousands_grouped_def
    by (rule exI [of _ "py ''1''"], rule exI [of _ "[py ''234'']"])
      (simp add: py_def digits_def is_digit_def)
  have mn1: "money_number (py ''1,234.56'')"
    unfolding money_number_def using tg
    by (intro exI [of _ "py ''1,234''"] exI [of _ "py ''56''"])
      (simp add: py_def digits_def is_digit_def)
  have mn2: "money_number (py ''12.34'')"
    unfolding money_number_def
    by (intro exI [of _ "py ''12''"] exI [of _ "py ''34''"])
      (simp add: py_def digits_def is_digit_def)
  have s1: "py_strip (py_replace1 160 [32] (py ''-$1,234.56'')) = [] @ 45 # [36] @ py ''1,234.56'' @ []"
    and s2: "py_strip (py_replace1 160 [32] (py ''-12.34'')) = [] @ 45 # [] @ py ''12.34'' @ []"
    by (simp_all add: py_def py_strip_def py_replace1_def is_space_def)
  have nb1: "no_money_number_before (py_strip (py_replace1 160 [32] (py ''-$1,234.56'')))
      (length ([] @ 45 # [36]))"
    unfolding s1 using no_number_before_nodigits [of "[45, 36]" "py ''1,234.56''"]
    by (simp add: is_digit_def)
  have nb2: "no_money_number_before (py_strip (py_replace1 160 [32] (py ''-12.34'')))
      (length ([] @ 45 # []))"
    unfolding s2 using no_number_before_nodigits [of "[45]" "py ''12.34''"]
    by (simp add: is_digit_def)
  from clean_price_sign_excluded [OF s1 _ mn1 nb1] clean_price_sign_excluded [OF s2 _ mn2 nb2]
    mn1 mn2
  show ?thesis by (simp add: py_def py_strip_def py_replace1_def is_space_def)
qed

text \<open>
  Claim C10. \<open>clean_price\<close> is idempotent on clean decimal input: a string of one or
  more digits, a point and exactly two digits, with no separators, is returned unchanged,
  so cleaning it twice is the same as cleaning it once.
\<close>

theorem clean_price_idempotent_on_clean:
  assumes "d \<noteq> []" "digits d" "length c = 2" "digits c"
  shows "clean_price (d @ 46 # c) = d @ 46 # c
    \<and> clean_price (clean_price (d @ 46 # c)) = clean_price (d @ 46 # c)"
proof -
  let ?r = "d @ 46 # c"
  from assms have mn: "money_number ?r" unfolding money_number_def by blast
  have "\<forall>x\<in>set ?r. is_digit x \<or> x = 46" using assms(2,4) by (auto simp: digits_def list_all_iff)
  moreover have "\<not> (is_digit 160 \<or> (160::nat) = 46)" "\<not> (is_digit 44 \<or> (44::nat) = 46)"
    by (simp_all add: is_digit_def)
  ultimately have no160: "160 \<notin> set ?r" and no44: "44 \<notin> set ?r" by blast+
  from mn have "?r \<noteq> []" "\<not> is_space (hd ?r)" "\<not> is_space (last ?r)"
    using money_number_starts_with_digit [OF mn] money_number_ends_with_digit [OF mn]
      not_space_facts(1) by auto
  then have "py_strip ?r = ?r" by (rule py_strip_id)
  with no160 have norm: "py_strip (py_replace1 160 [32] ?r) = ?r" by (simp add: py_replace1_id)
  have "first_money_number ([] @ ?r @ []) ?r" using mn by (intro first_after_nodigits) simp
  with norm have "first_money_number (py_strip (py_replace1 160 [32] ?r)) ?r" by simp
  then have "clean_price ?r = py_replace1 44 [] ?r" by (rule clean_price_first)
  with no44 have "clean_price ?r = ?r" by (simp add: py_replace1_id)
  then show ?thesis by simp
qed

theorem clean_price_idempotent_on_clean_witness:
  "py ''12'' \<noteq> [] \<and> digits (py ''12'') \<and> length (py ''34'') = 2 \<and> digits (py ''34'')
   \<and> clean_price (py ''12.34'') = py ''12.34''
   \<and> clean_price (clean_price (py ''12.34'')) = clean_price (py ''12.34'')"
proof -
  have h: "py ''12'' \<noteq> []" "digits (py ''12'')" "length (py ''34'') = 2" "digits (py ''34'')"
    by (simp_all add: py_def digits_def is_digit_def)
  from clean_price_idempotent_on_clean [OF h] h show ?thesis by (simp add: py_def)
qed


section \<open>The page as the program sees it\<close>

text \<open>
  The browser is outside the program. A \<open>page\<close> value is what the browser answers
  while one helper runs: for every frame and selector the outcome of \<^verbatim>\<open>query_selector\<close>
  (it raises, finds nothing, or returns an element, the first match), of a locator's
  \<^verbatim>\<open>count()\<close> and \<^verbatim>\<open>inner_text()\<close>, of a click, of a key press and of a script.
  A raised \<^verbatim>\<open>Exception\<close> is a value \<open>Exn msg\<close>, \<open>msg\<close> being its \<^verbatim>\<open>str()\<close>. Frames are
  identified by a number (\<^verbatim>\<open>fr is page.main_frame\<close> compares identities); \<open>frames\<close> is
  \<^verbatim>\<open>page.frames\<close> in discovery order and may list the main frame. Every theorem below
  holds for all pages, so for every way the browser may answer.
\<close>

datatype exn = Exn string

type_synonym frame = nat
type_synonym selector = string

record element =
  el_is_visible :: "exn + bool"
  el_click :: "exn option"
  el_type :: "string \<Rightarrow> exn option"

record page =
  main_frame :: frame
  frames :: "frame list"
  query_selector :: "frame \<Rightarrow> selector \<Rightarrow> exn + element option"
  locator_count :: "frame \<Rightarrow> selector \<Rightarrow> exn + nat"
  locator_inner_text :: "frame \<Rightarrow> selector \<Rightarrow> exn + pystr"
  frame_click :: "frame \<Rightarrow> selector \<Rightarrow> exn option"
  keyboard_press :: "string \<Rightarrow> exn option"
  evaluate :: "string \<Rightarrow> exn option"

definition DATE_INPUT_SELECTORS :: "selector list" where
  "DATE_INPUT_SELECTORS =
     [''input#asofDate'',
      ''input[id='' @ [CHR 0x27] @ ''asofDate'' @ [CHR 0x27] @ '' i]'',
      ''input[type='' @ [CHR 0x27] @ ''text'' @ [CHR 0x27] @ ''][id*='' @ [CHR 0x27] @ ''asof'' @ [CHR 0x27] @ '' i]'',
      ''input[type='' @ [CHR 0x27] @ ''text'' @ [CHR 0x27] @ ''][name*='' @ [CHR 0x27] @ ''asof'' @ [CHR 0x27] @ '' i]'']"

definition CONTENTEDITABLE_SELECTORS :: "selector list" where
  "CONTENTEDITABLE_SELECTORS =
     [''div[contenteditable='' @ [CHR 0x27] @ ''plaintext-only'' @ [CHR 0x27] @ '']'',
      ''div[contenteditable='' @ [CHR 0x27] @ ''true'' @ [CHR 0x27] @ '']'',
      ''[contenteditable][role='' @ [CHR 0x27] @ ''textbox'' @ [CHR 0x27] @ '']'']"

definition SUBMIT_BUTTON_SELECTORS :: "selector list" where
  "SUBMIT_BUTTON_SELECTORS = [''#customAsOfBal'']"

definition PRICE_CELL_SELECTORS :: "selector list" where
  "PRICE_CELL_SELECTORS =
     [''#caoBalDiv > table > tbody > tr > td.unite-table-cell.unite-table-cell-2.unite-table-column-unit'']"

text \<open>
  \<^verbatim>\<open>
  def first_visible_in_frame(frame, selectors):
      for sel in selectors:
          try:
              el = frame.query_selector(sel)
              if el and el.is_visible():
                  return sel
          except Exception:
              pass
      return None
  \<close>
\<close>

fun first_visible_in_frame :: "page \<Rightarrow> frame \<Rightarrow> selector list \<Rightarrow> selector option" where
  "first_visible_in_frame p fr [] = None"
| "first_visible_in_frame p fr (sel # sels) =
     (case query_selector p fr sel of
        Inr (Some el) \<Rightarrow>
          (case el_is_visible el of
             Inr True \<Rightarrow> Some sel
           | _ \<Rightarrow> first_visible_in_frame p fr sels)
      | _ \<Rightarrow> first_visible_in_frame p fr sels)"

text \<open>
  \<^verbatim>\<open>find_across_frames\<close> returns the pair \<^verbatim>\<open>(None, None)\<close> or a pair of a frame and a
  selector; the model returns an optional pair. \<^verbatim>\<open>if sel:\<close> is false for \<^verbatim>\<open>None\<close> and
  for the empty string. \<open>find_in_child_frames\<close> is its loop over \<^verbatim>\<open>page.frames\<close>.
\<close>

fun find_in_child_frames :: "page \<Rightarrow> selector list \<Rightarrow> frame list \<Rightarrow> (frame \<times> selector) option" where
  "find_in_child_frames p selectors [] = None"
| "find_in_child_frames p selectors (fr # frs) =
     (if fr = main_frame p then find_in_child_frames p selectors frs
      else case first_visible_in_frame p fr selectors of
             Some sel \<Rightarrow> if sel \<noteq> [] then Some (fr, sel) else find_in_child_frames p selectors frs
           | None \<Rightarrow> find_in_child_frames p selectors frs)"

definition find_across_frames :: "page \<Rightarrow> selector list \<Rightarrow> (frame \<times> selector) option" where
  "find_across_frames p selectors =
     (case first_visible_in_frame p (main_frame p) selectors of
        Some sel \<Rightarrow>
          if sel \<noteq> [] then Some (main_frame p, sel)
          else find_in_child_frames p selectors (frames p)
      | None \<Rightarrow> find_in_child_frames p selectors (frames p))"

text \<open>
  \<^verbatim>\<open>locate_price_locator\<close>: a locator is a frame and a selector;
  \<^verbatim>\<open>page.locator(sel)\<close> is a locator of the main frame. The source tests
  \<^verbatim>\<open>loc.count() > 0\<close> and not the visibility ("not always visible immediately; we'll
  still try to use it"). \<open>locate_in_frame\<close> is the loop over the selectors with its
  \<^verbatim>\<open>try\<close>, \<open>locate_in_frames\<close> the loop over \<^verbatim>\<open>page.frames\<close>.
\<close>

fun locate_in_frame :: "page \<Rightarrow> frame \<Rightarrow> selector list \<Rightarrow> (frame \<times> selector) option" where
  "locate_in_frame p fr [] = None"
| "locate_in_frame p fr (sel # sels) =
     (case locator_count p fr sel of
        Inr n \<Rightarrow> if 0 < n then Some (fr, sel) else locate_in_frame p fr sels
      | Inl e \<Rightarrow> locate_in_frame p fr sels)"

fun locate_in_frames :: "page \<Rightarrow> selector list \<Rightarrow> frame list \<Rightarrow> (frame \<times> selector) option" where
  "locate_in_frames p selectors [] = None"
| "locate_in_frames p selectors (fr # frs) =
     (case locate_in_frame p fr selectors of
        Some loc \<Rightarrow> Some loc
      | None \<Rightarrow> locate_in_frames p selectors frs)"

definition locate_price_locator :: "page \<Rightarrow> (frame \<times> selector) option" where
  "locate_price_locator p =
     (case locate_in_frame p (main_frame p) PRICE_CELL_SELECTORS of
        Some loc \<Rightarrow> Some loc
      | None \<Rightarrow> locate_in_frames p PRICE_CELL_SELECTORS (frames p))"

text \<open>
  The resolver in the words of the specification: the candidates in search order (main
  scope first with the selectors in priority order, then each remaining scope in
  discovery order), and what counts as a match of one probe. An error in a probe is no
  match of that probe.
\<close>

definition visible_match :: "page \<Rightarrow> frame \<times> selector \<Rightarrow> bool" where
  "visible_match p = (\<lambda>(fr, sel).
     case query_selector p fr sel of
       Inr (Some el) \<Rightarrow> el_is_visible el = Inr True
     | _ \<Rightarrow> False)"

definition present_match :: "page \<Rightarrow> frame \<times> selector \<Rightarrow> bool" where
  "present_match p = (\<lambda>(fr, sel).
     case locator_count p fr sel of Inr n \<Rightarrow> 0 < n | Inl e \<Rightarrow> False)"

definition search_order :: "page \<Rightarrow> selector list \<Rightarrow> (frame \<times> selector) list" where
  "search_order p selectors =
     map (Pair (main_frame p)) selectors
     @ concat (map (\<lambda>fr. map (Pair fr) selectors) (filter (\<lambda>fr. fr \<noteq> main_frame p) (frames p)))"

text \<open>A page whose price cell is in the main document but hidden.\<close>

definition hidden_price_page :: page where
  "hidden_price_page =
     \<lparr>main_frame = 0, frames = [0],
      query_selector = (\<lambda>fr sel. if fr = 0 \<and> sel \<in> set PRICE_CELL_SELECTORS
         then Inr (Some \<lparr>el_is_visible = Inr False, el_click = None, el_type = (\<lambda>t. None)\<rparr>)
         else Inr None),
      locator_count = (\<lambda>fr sel. if fr = 0 \<and> sel \<in> set PRICE_CELL_SELECTORS then Inr 1 else Inr 0),
      locator_inner_text = (\<lambda>fr sel. Inr (py ''12.34'')),
      frame_click = (\<lambda>fr sel. None),
      keyboard_press = (\<lambda>k. None),
      evaluate = (\<lambda>s. None)\<rparr>"

text \<open>
  A page with a child frame: in the main frame the first date selector finds a hidden
  element and the second raises; the child frame shows the date input and the price cell,
  and counting the price cell in the main frame raises.
\<close>

definition two_frame_page :: page where
  "two_frame_page =
     \<lparr>main_frame = 0, frames = [0, 1],
      query_selector = (\<lambda>fr sel.
         if fr = 0 \<and> sel = ''input#asofDate''
         then Inr (Some \<lparr>el_is_visible = Inr False, el_click = None, el_type = (\<lambda>t. None)\<rparr>)
         else if fr = 0 \<and> sel = DATE_INPUT_SELECTORS ! 1 then Inl (Exn ''Frame was detached'')
         else if fr = 1 \<and> sel = ''input#asofDate''
         then Inr (Some \<lparr>el_is_visible = Inr True, el_click = None, el_type = (\<lambda>t. None)\<rparr>)
         else Inr None),
      locator_count = (\<lambda>fr sel. if fr = 0 then Inl (Exn ''Frame was detached'')
         else if sel \<in> set PRICE_CELL_SELECTORS then Inr 1 else Inr 0),
      locator_inner_text = (\<lambda>fr sel. Inr (py ''12.34'')),
      frame_click = (\<lambda>fr sel. None),
      keyboard_press = (\<lambda>k. None),
      evaluate = (\<lambda>s. None)\<rparr>"

lemma first_visible_in_frame_find:
  "first_visible_in_frame p fr sels = List.find (\<lambda>sel. visible_match p (fr, sel)) sels"
  by (induction sels) (auto simp: visible_match_def split: sum.splits option.splits bool.splits)

lemma find_map_Pair:
  "List.find P (map (Pair fr) sels) = map_option (Pair fr) (List.find (\<lambda>sel. P (fr, sel)) sels)"
  by (induction sels) auto

lemma find_append_case:
  "List.find P (xs @ ys) = (case List.find P xs of Some x \<Rightarrow> Some x | None \<Rightarrow> List.find P ys)"
  by (induction xs) auto

lemma find_Some_nonempty:
  "[] \<notin> set sels \<Longrightarrow> List.find P sels = Some sel \<Longrightarrow> sel \<noteq> []"
  by (induction sels) (auto split: if_splits)

lemma find_in_child_frames_find:
  assumes "[] \<notin> set sels"
  shows "find_in_child_frames p sels frs =
     List.find (visible_match p)
       (concat (map (\<lambda>fr. map (Pair fr) sels) (filter (\<lambda>fr. fr \<noteq> main_frame p) frs)))"
proof (induction frs)
  case Nil
  then show ?case by simp
next
  case (Cons fr frs)
  show ?case
  proof (cases "fr = main_frame p")
    case True
    with Cons show ?thesis by simp
  next
    case False
    show ?thesis
    proof (cases "List.find (\<lambda>sel. visible_match p (fr, sel)) sels")
      case None
      with False Cons show ?thesis
        by (simp add: first_visible_in_frame_find find_append_case find_map_Pair)
    next
      case (Some sel)
      with assms have "sel \<noteq> []" by (rule find_Some_nonempty)
      with False Some show ?thesis
        by (simp add: first_visible_in_frame_find find_append_case find_map_Pair)
    qed
  qed
qed

lemma find_across_frames_find:
  assumes "[] \<notin> set sels"
  shows "find_across_frames p sels = List.find (visible_match p) (search_order p sels)"
proof (cases "List.find (\<lambda>sel. visible_match p (main_frame p, sel)) sels")
  case None
  then show ?thesis
    unfolding find_across_frames_def search_order_def
    by (simp add: first_visible_in_frame_find find_append_case find_map_Pair
        find_in_child_frames_find [OF assms])
next
  case (Some sel)
  with assms have "sel \<noteq> []" by (rule find_Some_nonempty)
  with Some show ?thesis
    unfolding find_across_frames_def search_order_def
    by (simp add: first_visible_in_frame_find find_append_case find_map_Pair)
qed

lemma locate_in_frame_find:
  "locate_in_frame p fr sels = List.find (present_match p) (map (Pair fr) sels)"
  by (induction sels) (auto simp: present_match_def split: sum.splits)

lemma locate_in_frames_find:
  "locate_in_frames p sels frs =
     List.find (present_match p) (concat (map (\<lambda>fr. map (Pair fr) sels) frs))"
  by (induction frs) (auto simp: locate_in_frame_find find_append_case split: option.splits)

lemma find_skip_failed:
  assumes "List.find P (map (Pair m) sels) = None"
  shows "List.find P (concat (map (\<lambda>fr. map (Pair fr) sels) frs))
       = List.find P (concat (map (\<lambda>fr. map (Pair fr) sels) (filter (\<lambda>fr. fr \<noteq> m) frs)))"
  using assms by (induction frs) (auto simp: find_append_case split: option.splits)

lemma locate_price_locator_find:
  "locate_price_locator p = List.find (present_match p) (search_order p PRICE_CELL_SELECTORS)"
proof (cases "List.find (present_match p) (map (Pair (main_frame p)) PRICE_CELL_SELECTORS)")
  case None
  from find_skip_failed [OF None] None show ?thesis
    unfolding locate_price_locator_def search_order_def
    by (simp add: locate_in_frame_find locate_in_frames_find find_append_case)
next
  case (Some loc)
  then show ?thesis
    unfolding locate_price_locator_def search_order_def
    by (simp add: locate_in_frame_find find_append_case)
qed

text \<open>
  Claim C3 as stated fails for the price cell: on \<open>hidden_price_page\<close> no probe finds a
  visible element, so the claim asks for the not-found sentinel, but the resolver returns
  the hidden cell.
\<close>

theorem resolver_price_cell_counterexample:
  "locate_price_locator hidden_price_page = Some (0, hd PRICE_CELL_SELECTORS)
   \<and> List.find (visible_match hidden_price_page)
         (search_order hidden_price_page PRICE_CELL_SELECTORS) = None"
  by (simp add: locate_price_locator_def hidden_price_page_def search_order_def visible_match_def
      PRICE_CELL_SELECTORS_def)

text \<open>
  Claim C3, amended. For the date input, the editable div and the submit control the
  resolver returns the first pair of a scope and a selector, in search order, whose probe
  returns an element that is visible. For the price cell it returns the first pair, in the
  same order, whose selector matches at least one element, visible or not. An error in a
  probe makes that probe no match; when nothing matches the result is the not-found
  sentinel.
\<close>

theorem resolver_first_match:
  "(sels \<in> {DATE_INPUT_SELECTORS, CONTENTEDITABLE_SELECTORS, SUBMIT_BUTTON_SELECTORS} \<longrightarrow>
      find_across_frames p sels = List.find (visible_match p) (search_order p sels))
   \<and> locate_price_locator p = List.find (present_match p) (search_order p PRICE_CELL_SELECTORS)"
proof (intro conjI impI)
  assume "sels \<in> {DATE_INPUT_SELECTORS, CONTENTEDITABLE_SELECTORS, SUBMIT_BUTTON_SELECTORS}"
  then have "[] \<notin> set sels"
    by (auto simp: DATE_INPUT_SELECTORS_def CONTENTEDITABLE_SELECTORS_def SUBMIT_BUTTON_SELECTORS_def)
  then show "find_across_frames p sels = List.find (visible_match p) (search_order p sels)"
    by (rule find_across_frames_find)
qed (rule locate_price_locator_find)

theorem resolver_first_match_witness:
  "DATE_INPUT_SELECTORS \<in> {DATE_INPUT_SELECTORS, CONTENTEDITABLE_SELECTORS, SUBMIT_BUTTON_SELECTORS}
   \<and> find_across_frames two_frame_page DATE_INPUT_SELECTORS = Some (1, ''input#asofDate'')
   \<and> locate_price_locator two_frame_page = Some (1, hd PRICE_CELL_SELECTORS)
   \<and> find_across_frames two_frame_page SUBMIT_BUTTON_SELECTORS = None"
  using resolver_first_match [of DATE_INPUT_SELECTORS two_frame_page]
    resolver_first_match [of SUBMIT_BUTTON_SELECTORS two_frame_page]
  by (simp add: search_order_def visible_match_def present_match_def two_frame_page_def
      DATE_INPUT_SELECTORS_def PRICE_CELL_SELECTORS_def SUBMIT_BUTTON_SELECTORS_def)

section \<open>What the program does to the outside\<close>

text \<open>
  Each helper returns, next to its result, the list of the things it did, in order: the
  clicks, key presses and typing that returned normally, the sleeps (in milliseconds), the
  rows written, the lines printed. A call that raised is not in the list.
\<close>

datatype action =
    Click frame selector
  | Press string
  | TypeText frame selector string
  | FrameClick frame selector
  | Evaluate string
  | Sleep nat
  | Launch bool nat
  | NewContext
  | NewPage
  | Goto string
  | BrowserClose
  | OpenCsv string
  | WriteRow "pystr list"
  | CloseCsv
  | Stdout string
  | Stderr string
  | Exit nat

text \<open>
  \<^verbatim>\<open>
  def extract_price_text(page):
      try:
          loc = locate_price_locator(page)
          if not loc:
              return ""
          return (loc.inner_text() or "").strip()
      except Exception:
          return ""
  \<close>
\<close>

definition extract_price_text :: "page \<Rightarrow> pystr" where
  "extract_price_text p =
     (case locate_price_locator p of
        None \<Rightarrow> []
      | Some (fr, sel) \<Rightarrow>
          (case locator_inner_text p fr sel of
             Inl e \<Rightarrow> []
           | Inr t \<Rightarrow> py_strip (if t = [] then [] else t)))"

text \<open>
  \<^verbatim>\<open>
  def set_date_anywhere(page, target_str_mmddyyyy):
      fr, sel = find_across_frames(page, DATE_INPUT_SELECTORS)
      if fr and sel:
          try:
              el = fr.query_selector(sel)
              el.click()
              page.keyboard.press("Control+A" if sys.platform != "darwin" else "Meta+A")
              page.keyboard.press("Backspace")
              el.type(target_str_mmddyyyy, delay=20)
              return True
          except Exception:
              pass
      fr, sel = find_across_frames(page, CONTENTEDITABLE_SELECTORS)
      if fr and sel:
          (the same block)
      return False
  \<close>
  \<open>type_into\<close> is the body of the \<^verbatim>\<open>try\<close>, which the source has twice: every call in
  it may raise, and \<^verbatim>\<open>el.click()\<close> on \<^verbatim>\<open>None\<close> raises too. \<open>try_candidates\<close> is
  one \<^verbatim>\<open>find_across_frames\<close> with the block under it.
\<close>

definition select_all_key :: "string \<Rightarrow> string" where
  "select_all_key platform = (if platform \<noteq> ''darwin'' then ''Control+A'' else ''Meta+A'')"

definition type_into :: "string \<Rightarrow> page \<Rightarrow> frame \<Rightarrow> selector \<Rightarrow> string \<Rightarrow> action list \<times> bool" where
  "type_into platform p fr sel target =
     (case query_selector p fr sel of
        Inr (Some el) \<Rightarrow>
          (case el_click el of
             Some e \<Rightarrow> ([], False)
           | None \<Rightarrow>
               (case keyboard_press p (select_all_key platform) of
                  Some e \<Rightarrow> ([Click fr sel], False)
                | None \<Rightarrow>
                    (case keyboard_press p ''Backspace'' of
                       Some e \<Rightarrow> ([Click fr sel, Press (select_all_key platform)], False)
                     | None \<Rightarrow>
                         (case el_type el target of
                            Some e \<Rightarrow>
                              ([Click fr sel, Press (select_all_key platform), Press ''Backspace''],
                               False)
                          | None \<Rightarrow>
                              ([Click fr sel, Press (select_all_key platform), Press ''Backspace'',
                                TypeText fr sel target], True)))))
      | _ \<Rightarrow> ([], False))"

definition try_candidates :: "string \<Rightarrow> page \<Rightarrow> selector list \<Rightarrow> string \<Rightarrow> action list \<times> bool" where
  "try_candidates platform p selectors target =
     (case find_across_frames p selectors of
        Some (fr, sel) \<Rightarrow> type_into platform p fr sel target
      | None \<Rightarrow> ([], False))"

definition set_date_anywhere :: "string \<Rightarrow> page \<Rightarrow> string \<Rightarrow> action list \<times> bool" where
  "set_date_anywhere platform p target_str_mmddyyyy =
     (case try_candidates platform p DATE_INPUT_SELECTORS target_str_mmddyyyy of
        (acts1, True) \<Rightarrow> (acts1, True)
      | (acts1, False) \<Rightarrow>
          (case try_candidates platform p CONTENTEDITABLE_SELECTORS target_str_mmddyyyy of
             (acts2, True) \<Rightarrow> (acts1 @ acts2, True)
           | (acts2, False) \<Rightarrow> (acts1 @ acts2, False)))"

text \<open>
  \<^verbatim>\<open>
  def click_submit_anywhere(page):
      fr, sel = find_across_frames(page, SUBMIT_BUTTON_SELECTORS)
      if fr and sel:
          try:
              fr.click(sel)
              return True
          except Exception:
              return False
      return False
  \<close>
\<close>

definition click_submit_anywhere :: "page \<Rightarrow> action list \<times> bool" where
  "click_submit_anywhere p =
     (case find_across_frames p SUBMIT_BUTTON_SELECTORS of
        Some (fr, sel) \<Rightarrow>
          (case frame_click p fr sel of
             None \<Rightarrow> ([FrameClick fr sel], True)
           | Some e \<Rightarrow> ([], False))
      | None \<Rightarrow> ([], False))"

text \<open>
  \<^verbatim>\<open>
  def wait_for_price_update(page, prev_text):
      deadline = time.time() + (MAX_WAIT_PRICE_MS / 1000.0)
      last = None
      while time.time() < deadline:
          txt = extract_price_text(page)
          last = txt
          if prev_text:
              if txt and txt != prev_text:
                  return txt.strip()
          else:
              if txt:
                  return txt.strip()
          time.sleep(0.15)
      return (last or "").strip()
  \<close>
  The clock counts milliseconds. \<open>polls i\<close> is the page that the \<open>i\<close>-th poll sees
  and the time that passes during it (any time, also none); a sleep takes 150 ms. \<open>now\<close>
  is the clock when the function is entered.
\<close>

definition MAX_WAIT_PRICE_MS :: nat where
  "MAX_WAIT_PRICE_MS = 10000"

definition POLL_SLEEP_MS :: nat where
  "POLL_SLEEP_MS = 150"

definition price_changed :: "pystr option \<Rightarrow> pystr \<Rightarrow> bool" where
  "price_changed prev_text txt =
     (case prev_text of
        Some prev \<Rightarrow> if prev \<noteq> [] then txt \<noteq> [] \<and> txt \<noteq> prev else txt \<noteq> []
      | None \<Rightarrow> txt \<noteq> [])"

function wait_loop ::
  "(nat \<Rightarrow> page \<times> nat) \<Rightarrow> pystr option \<Rightarrow> nat \<Rightarrow> nat \<Rightarrow> nat \<Rightarrow> pystr option \<Rightarrow> pystr \<times> action list"
where
  "wait_loop polls prev_text deadline i now last_txt =
     (if now < deadline then
        (let txt = extract_price_text (fst (polls i)) in
         if price_changed prev_text txt then (py_strip txt, [])
         else (case wait_loop polls prev_text deadline (Suc i)
                      (now + snd (polls i) + POLL_SLEEP_MS) (Some txt) of
                 (r, acts) \<Rightarrow> (r, Sleep POLL_SLEEP_MS # acts)))
      else (py_strip (case last_txt of None \<Rightarrow> [] | Some t \<Rightarrow> t), []))"
  by pat_completeness auto
termination
  by (relation "measure (\<lambda>(polls, prev_text, deadline, i, now, last_txt). deadline - now)")
    (auto simp: POLL_SLEEP_MS_def)

definition wait_for_price_update ::
  "(nat \<Rightarrow> page \<times> nat) \<Rightarrow> nat \<Rightarrow> pystr option \<Rightarrow> pystr \<times> action list" where
  "wait_for_price_update polls now prev_text =
     wait_loop polls prev_text (now + MAX_WAIT_PRICE_MS) 0 now None"

section \<open>The date setter\<close>

text \<open>
  In the words of the specification: a candidate of a kind is found when the resolver
  returns one for the kind's selectors. The interaction with a located field is the calls
  of the \<^verbatim>\<open>try\<close> block: \<^verbatim>\<open>query_selector\<close>, \<^verbatim>\<open>click\<close>, the two key presses and
  \<^verbatim>\<open>type\<close>. \<open>interaction_calls\<close> lists what each of them answers on the page, in the
  order of the source: \<open>None\<close> when the call returns, \<open>Some e\<close> when it raises \<open>e\<close>.
  When \<^verbatim>\<open>query_selector\<close> returns \<^verbatim>\<open>None\<close>, the call \<^verbatim>\<open>el.click()\<close> raises an
  \<^verbatim>\<open>AttributeError\<close>. The interaction raised when one of its calls raised; the calls
  after that one are not made. These definitions read the answers of the page only, not
  the result of the date setter.
\<close>

definition candidate_found :: "page \<Rightarrow> selector list \<Rightarrow> bool" where
  "candidate_found p selectors \<longleftrightarrow> find_across_frames p selectors \<noteq> None"

definition interaction_calls :: "string \<Rightarrow> page \<Rightarrow> frame \<Rightarrow> selector \<Rightarrow> string \<Rightarrow> exn option list" where
  "interaction_calls platform p fr sel target =
     (case query_selector p fr sel of
        Inl e \<Rightarrow> [Some e]
      | Inr None \<Rightarrow> [None, Some (Exn ''AttributeError'')]
      | Inr (Some el) \<Rightarrow>
          [None, el_click el, keyboard_press p (select_all_key platform),
           keyboard_press p ''Backspace'', el_type el target])"

definition call_raised :: "exn option list \<Rightarrow> bool" where
  "call_raised calls \<longleftrightarrow> (\<exists>r\<in>set calls. r \<noteq> None)"

definition interaction_raised :: "string \<Rightarrow> page \<Rightarrow> selector list \<Rightarrow> string \<Rightarrow> bool" where
  "interaction_raised platform p selectors target \<longleftrightarrow>
     (case find_across_frames p selectors of
        Some (fr, sel) \<Rightarrow> call_raised (interaction_calls platform p fr sel target)
      | None \<Rightarrow> False)"

text \<open>
  A page where the date input is visible but clicking it raises, and an editable div is
  visible and works; and a page where the date input works.
\<close>

definition fallback_page :: page where
  "fallback_page =
     \<lparr>main_frame = 0, frames = [0],
      query_selector = (\<lambda>fr sel.
         if fr = 0 \<and> sel = ''input#asofDate''
         then Inr (Some \<lparr>el_is_visible = Inr True, el_click = Some (Exn ''Timeout 30000ms exceeded''),
                          el_type = (\<lambda>t. None)\<rparr>)
         else if fr = 0 \<and> sel = hd CONTENTEDITABLE_SELECTORS
         then Inr (Some \<lparr>el_is_visible = Inr True, el_click = None, el_type = (\<lambda>t. None)\<rparr>)
         else Inr None),
      locator_count = (\<lambda>fr sel. Inr 0),
      locator_inner_text = (\<lambda>fr sel. Inr []),
      frame_click = (\<lambda>fr sel. None),
      keyboard_press = (\<lambda>k. None),
      evaluate = (\<lambda>s. None)\<rparr>"

definition input_page :: page where
  "input_page =
     \<lparr>main_frame = 0, frames = [0],
      query_selector = (\<lambda>fr sel.
         if fr = 0 \<and> sel = ''input#asofDate''
         then Inr (Some \<lparr>el_is_visible = Inr True, el_click = None, el_type = (\<lambda>t. None)\<rparr>)
         else Inr None),
      locator_count = (\<lambda>fr sel. Inr 0),
      locator_inner_text = (\<lambda>fr sel. Inr []),
      frame_click = (\<lambda>fr sel. None),
      keyboard_press = (\<lambda>k. None),
      evaluate = (\<lambda>s. None)\<rparr>"

lemma type_into_success:
  assumes "snd (type_into platform p fr sel target)"
  shows "fst (type_into platform p fr sel target)
     = [Click fr sel, Press (select_all_key platform), Press ''Backspace'', TypeText fr sel target]"
  using assms unfolding type_into_def
  by (auto split: sum.splits option.splits)

lemma type_into_raised:
  "snd (type_into platform p fr sel target) \<longleftrightarrow>
     \<not> call_raised (interaction_calls platform p fr sel target)"
  unfolding type_into_def interaction_calls_def call_raised_def
  by (auto split: sum.splits option.splits)

lemma type_into_actions:
  "fst (type_into platform p fr sel target) =
     map snd (takeWhile (\<lambda>(r, a). r = None)
       (zip (tl (interaction_calls platform p fr sel target))
            [Click fr sel, Press (select_all_key platform), Press ''Backspace'',
             TypeText fr sel target]))"
  unfolding type_into_def interaction_calls_def
  by (auto split: sum.splits option.splits)

lemma try_candidates_outcome:
  "snd (try_candidates platform p sels target) \<longleftrightarrow>
     candidate_found p sels \<and> \<not> interaction_raised platform p sels target"
  unfolding try_candidates_def candidate_found_def interaction_raised_def
  by (auto simp: type_into_raised split: option.splits)

lemma try_candidates_success:
  assumes "snd (try_candidates platform p sels target)"
  shows "\<exists>fr sel. find_across_frames p sels = Some (fr, sel) \<and>
           last (fst (try_candidates platform p sels target)) = TypeText fr sel target"
proof -
  from assms obtain fr sel where f: "find_across_frames p sels = Some (fr, sel)"
    and ok: "snd (type_into platform p fr sel target)"
    unfolding try_candidates_def by (auto split: option.splits)
  from type_into_success [OF ok] f show ?thesis
    unfolding try_candidates_def by simp
qed

lemma try_candidates_failure_actions:
  assumes "\<not> snd (try_candidates platform p sels target)"
  shows "\<forall>a\<in>set (fst (try_candidates platform p sels target)). \<forall>fr sel t. a \<noteq> TypeText fr sel t"
  using assms unfolding try_candidates_def type_into_def
  by (auto split: option.splits sum.splits)

lemma set_date_anywhere_cases:
  "set_date_anywhere platform p t =
     (if snd (try_candidates platform p DATE_INPUT_SELECTORS t)
      then try_candidates platform p DATE_INPUT_SELECTORS t
      else (fst (try_candidates platform p DATE_INPUT_SELECTORS t)
              @ fst (try_candidates platform p CONTENTEDITABLE_SELECTORS t),
            snd (try_candidates platform p CONTENTEDITABLE_SELECTORS t)))"
  unfolding set_date_anywhere_def
  by (cases "try_candidates platform p DATE_INPUT_SELECTORS t";
      cases "try_candidates platform p CONTENTEDITABLE_SELECTORS t") (auto split: bool.splits)

text \<open>
  Claim C8 as stated fails: on \<open>fallback_page\<close> the interaction with the date input
  raises, so the claim asks for failure, but the editable div is then tried and the result
  is success.
\<close>

theorem set_date_anywhere_counterexample:
  "\<not> ((\<not> snd (set_date_anywhere ''linux'' fallback_page ''01/17/2025'')) \<longleftrightarrow>
        ((\<not> candidate_found fallback_page DATE_INPUT_SELECTORS
            \<and> \<not> candidate_found fallback_page CONTENTEDITABLE_SELECTORS)
         \<or> interaction_raised ''linux'' fallback_page DATE_INPUT_SELECTORS ''01/17/2025''
         \<or> interaction_raised ''linux'' fallback_page CONTENTEDITABLE_SELECTORS ''01/17/2025''))"
proof -
  have 1: "find_across_frames fallback_page DATE_INPUT_SELECTORS = Some (0, ''input#asofDate'')"
    by (simp add: find_across_frames_def fallback_page_def DATE_INPUT_SELECTORS_def)
  have 2: "find_across_frames fallback_page CONTENTEDITABLE_SELECTORS
      = Some (0, hd CONTENTEDITABLE_SELECTORS)"
    by (simp add: find_across_frames_def fallback_page_def CONTENTEDITABLE_SELECTORS_def)
  have 3: "\<not> snd (type_into ''linux'' fallback_page 0 ''input#asofDate'' ''01/17/2025'')"
    by (simp add: type_into_def fallback_page_def)
  have 4: "snd (type_into ''linux'' fallback_page 0 (hd CONTENTEDITABLE_SELECTORS) ''01/17/2025'')"
    by (simp add: type_into_def fallback_page_def CONTENTEDITABLE_SELECTORS_def select_all_key_def)
  have "interaction_calls ''linux'' fallback_page 0 ''input#asofDate'' ''01/17/2025''
      = [None, Some (Exn ''Timeout 30000ms exceeded''), None, None, None]"
    by (simp add: interaction_calls_def fallback_page_def)
  with 1 have raised: "interaction_raised ''linux'' fallback_page DATE_INPUT_SELECTORS ''01/17/2025''"
    by (simp add: interaction_raised_def call_raised_def)
  from 1 2 3 4 have "snd (set_date_anywhere ''linux'' fallback_page ''01/17/2025'')"
    by (simp add: set_date_anywhere_cases try_candidates_def)
  with raised show ?thesis by blast
qed

text \<open>
  Claim C8, amended. The date setter returns one boolean and raises nothing. It fails
  exactly when, for the date input and for the editable div alike, no candidate was found
  or a call of the interaction with the candidate raised. When it succeeds, the last thing
  it did was to type the target string into a field the resolver located; when it fails,
  nothing was typed. The date input is tried first: when it is found and no call of the
  interaction raises, nothing else is tried; when it is not found or a call raised, the
  error is suppressed and the editable div is tried, and its outcome is the result.
\<close>

theorem set_date_anywhere_outcome:
  "(\<not> snd (set_date_anywhere platform p t) \<longleftrightarrow>
       (\<not> candidate_found p DATE_INPUT_SELECTORS
          \<or> interaction_raised platform p DATE_INPUT_SELECTORS t)
     \<and> (\<not> candidate_found p CONTENTEDITABLE_SELECTORS
          \<or> interaction_raised platform p CONTENTEDITABLE_SELECTORS t))
   \<and> (snd (set_date_anywhere platform p t) \<longrightarrow>
        (\<exists>fr sel. last (fst (set_date_anywhere platform p t)) = TypeText fr sel t
           \<and> (find_across_frames p DATE_INPUT_SELECTORS = Some (fr, sel)
                \<or> find_across_frames p CONTENTEDITABLE_SELECTORS = Some (fr, sel))))
   \<and> (candidate_found p DATE_INPUT_SELECTORS
        \<and> \<not> interaction_raised platform p DATE_INPUT_SELECTORS t \<longrightarrow>
        set_date_anywhere platform p t = try_candidates platform p DATE_INPUT_SELECTORS t)
   \<and> (\<not> candidate_found p DATE_INPUT_SELECTORS
        \<or> interaction_raised platform p DATE_INPUT_SELECTORS t \<longrightarrow>
        set_date_anywhere platform p t
          = (fst (try_candidates platform p DATE_INPUT_SELECTORS t)
               @ fst (try_candidates platform p CONTENTEDITABLE_SELECTORS t),
             snd (try_candidates platform p CONTENTEDITABLE_SELECTORS t)))
   \<and> (\<not> snd (set_date_anywhere platform p t) \<longrightarrow>
        (\<forall>a\<in>set (fst (set_date_anywhere platform p t)). \<forall>fr sel s. a \<noteq> TypeText fr sel s))"
proof (intro conjI impI)
  show "\<not> snd (set_date_anywhere platform p t) \<longleftrightarrow>
       (\<not> candidate_found p DATE_INPUT_SELECTORS
          \<or> interaction_raised platform p DATE_INPUT_SELECTORS t)
     \<and> (\<not> candidate_found p CONTENTEDITABLE_SELECTORS
          \<or> interaction_raised platform p CONTENTEDITABLE_SELECTORS t)"
    using try_candidates_outcome [of platform p DATE_INPUT_SELECTORS t]
      try_candidates_outcome [of platform p CONTENTEDITABLE_SELECTORS t]
    by (auto simp: set_date_anywhere_cases)
next
  assume ok: "snd (set_date_anywhere platform p t)"
  show "\<exists>fr sel. last (fst (set_date_anywhere platform p t)) = TypeText fr sel t
           \<and> (find_across_frames p DATE_INPUT_SELECTORS = Some (fr, sel)
                \<or> find_across_frames p CONTENTEDITABLE_SELECTORS = Some (fr, sel))"
  proof (cases "snd (try_candidates platform p DATE_INPUT_SELECTORS t)")
    case True
    from try_candidates_success [OF True] True show ?thesis
      by (auto simp: set_date_anywhere_cases)
  next
    case False
    with ok have ok2: "snd (try_candidates platform p CONTENTEDITABLE_SELECTORS t)"
      by (simp add: set_date_anywhere_cases)
    from try_candidates_success [OF ok2] obtain fr sel where
      f: "find_across_frames p CONTENTEDITABLE_SELECTORS = Some (fr, sel)"
      and l: "last (fst (try_candidates platform p CONTENTEDITABLE_SELECTORS t)) = TypeText fr sel t"
      by blast
    from ok2 f have "fst (try_candidates platform p CONTENTEDITABLE_SELECTORS t) \<noteq> []"
      using type_into_success [of platform p fr sel t] by (auto simp: try_candidates_def)
    with False l f show ?thesis by (auto simp: set_date_anywhere_cases)
  qed
next
  assume "candidate_found p DATE_INPUT_SELECTORS
        \<and> \<not> interaction_raised platform p DATE_INPUT_SELECTORS t"
  then have "snd (try_candidates platform p DATE_INPUT_SELECTORS t)"
    by (simp add: try_candidates_outcome)
  then show "set_date_anywhere platform p t = try_candidates platform p DATE_INPUT_SELECTORS t"
    by (simp add: set_date_anywhere_cases)
next
  assume "\<not> candidate_found p DATE_INPUT_SELECTORS
        \<or> interaction_raised platform p DATE_INPUT_SELECTORS t"
  then have "\<not> snd (try_candidates platform p DATE_INPUT_SELECTORS t)"
    by (simp add: try_candidates_outcome)
  then show "set_date_anywhere platform p t
          = (fst (try_candidates platform p DATE_INPUT_SELECTORS t)
               @ fst (try_candidates platform p CONTENTEDITABLE_SELECTORS t),
             snd (try_candidates platform p CONTENTEDITABLE_SELECTORS t))"
    by (simp add: set_date_anywhere_cases)
next
  assume failed: "\<not> snd (set_date_anywhere platform p t)"
  then have n1: "\<not> snd (try_candidates platform p DATE_INPUT_SELECTORS t)"
    and n2: "\<not> snd (try_candidates platform p CONTENTEDITABLE_SELECTORS t)"
    by (auto simp: set_date_anywhere_cases split: if_splits)
  from n1 have acts: "fst (set_date_anywhere platform p t)
      = fst (try_candidates platform p DATE_INPUT_SELECTORS t)
          @ fst (try_candidates platform p CONTENTEDITABLE_SELECTORS t)"
    by (simp add: set_date_anywhere_cases)
  from try_candidates_failure_actions [OF n1] try_candidates_failure_actions [OF n2]
  show "\<forall>a\<in>set (fst (set_date_anywhere platform p t)). \<forall>fr sel s. a \<noteq> TypeText fr sel s"
    unfolding acts by auto
qed

theorem set_date_anywhere_outcome_witness:
  "snd (set_date_anywhere ''linux'' fallback_page ''01/17/2025'')
   \<and> last (fst (set_date_anywhere ''linux'' fallback_page ''01/17/2025''))
       = TypeText 0 (hd CONTENTEDITABLE_SELECTORS) ''01/17/2025''
   \<and> candidate_found fallback_page DATE_INPUT_SELECTORS
   \<and> interaction_raised ''linux'' fallback_page DATE_INPUT_SELECTORS ''01/17/2025''
   \<and> candidate_found input_page DATE_INPUT_SELECTORS
   \<and> \<not> interaction_raised ''linux'' input_page DATE_INPUT_SELECTORS ''01/17/2025''
   \<and> set_date_anywhere ''linux'' input_page ''01/17/2025''
       = ([Click 0 ''input#asofDate'', Press ''Control+A'', Press ''Backspace'',
           TypeText 0 ''input#asofDate'' ''01/17/2025''], True)
   \<and> \<not> snd (set_date_anywhere ''linux'' hidden_price_page ''01/17/2025'')"
proof -
  have f1: "find_across_frames fallback_page DATE_INPUT_SELECTORS = Some (0, ''input#asofDate'')"
    and f2: "find_across_frames fallback_page CONTENTEDITABLE_SELECTORS
      = Some (0, hd CONTENTEDITABLE_SELECTORS)"
    and f3: "find_across_frames input_page DATE_INPUT_SELECTORS = Some (0, ''input#asofDate'')"
    and f4: "find_across_frames hidden_price_page DATE_INPUT_SELECTORS = None"
    and f5: "find_across_frames hidden_price_page CONTENTEDITABLE_SELECTORS = None"
    by (simp_all add: find_across_frames_def fallback_page_def input_page_def hidden_price_page_def
        DATE_INPUT_SELECTORS_def CONTENTEDITABLE_SELECTORS_def PRICE_CELL_SELECTORS_def)
  have t1: "type_into ''linux'' fallback_page 0 ''input#asofDate'' ''01/17/2025'' = ([], False)"
    and t2: "type_into ''linux'' fallback_page 0 (hd CONTENTEDITABLE_SELECTORS) ''01/17/2025''
      = ([Click 0 (hd CONTENTEDITABLE_SELECTORS), Press ''Control+A'', Press ''Backspace'',
          TypeText 0 (hd CONTENTEDITABLE_SELECTORS) ''01/17/2025''], True)"
    and t3: "type_into ''linux'' input_page 0 ''input#asofDate'' ''01/17/2025''
      = ([Click 0 ''input#asofDate'', Press ''Control+A'', Press ''Backspace'',
          TypeText 0 ''input#asofDate'' ''01/17/2025''], True)"
    by (simp_all add: type_into_def fallback_page_def input_page_def select_all_key_def
        CONTENTEDITABLE_SELECTORS_def)
  have c1: "interaction_calls ''linux'' fallback_page 0 ''input#asofDate'' ''01/17/2025''
      = [None, Some (Exn ''Timeout 30000ms exceeded''), None, None, None]"
    and c2: "interaction_calls ''linux'' fallback_page 0 (hd CONTENTEDITABLE_SELECTORS) ''01/17/2025''
      = [None, None, None, None, None]"
    and c3: "interaction_calls ''linux'' input_page 0 ''input#asofDate'' ''01/17/2025''
      = [None, None, None, None, None]"
    by (simp_all add: interaction_calls_def fallback_page_def input_page_def
        CONTENTEDITABLE_SELECTORS_def)
  from set_date_anywhere_outcome [of "''linux''" fallback_page "''01/17/2025''"]
    set_date_anywhere_outcome [of "''linux''" input_page "''01/17/2025''"]
    set_date_anywhere_outcome [of "''linux''" hidden_price_page "''01/17/2025''"]
  show ?thesis
    by (simp add: f1 f2 f3 f4 f5 t1 t2 t3 c1 c2 c3 candidate_found_def interaction_raised_def
        call_raised_def set_date_anywhere_cases try_candidates_def)
qed

section \<open>The update waiter\<close>

text \<open>
  In the words of the specification: \<open>poll_start polls now i\<close> is the clock when the
  \<open>i\<close>-th poll begins (each poll is followed by one sleep of the fixed interval),
  \<open>observed polls i\<close> the text that poll observes, and \<open>price_changed\<close> (above) the exit
  test: the text is non-empty and differs from the previous one, or is non-empty when no
  previous text was supplied.
\<close>

primrec poll_start :: "(nat \<Rightarrow> page \<times> nat) \<Rightarrow> nat \<Rightarrow> nat \<Rightarrow> nat" where
  "poll_start polls now 0 = now"
| "poll_start polls now (Suc i) = poll_start polls now i + snd (polls i) + POLL_SLEEP_MS"

definition observed :: "(nat \<Rightarrow> page \<times> nat) \<Rightarrow> nat \<Rightarrow> pystr" where
  "observed polls i = extract_price_text (fst (polls i))"

lemma last_dropWhile:
  "dropWhile P xs \<noteq> [] \<Longrightarrow> last (dropWhile P xs) = last xs"
  by (induction xs) (auto split: if_splits)

lemma py_strip_ends:
  assumes "py_strip s \<noteq> []"
  shows "\<not> is_space (hd (py_strip s)) \<and> \<not> is_space (last (py_strip s))"
proof -
  let ?A = "dropWhile is_space s"
  let ?B = "dropWhile is_space (rev ?A)"
  from assms have B: "?B \<noteq> []" by (simp add: py_strip_def)
  have "?A = [] \<Longrightarrow> ?B = []" by (simp only: rev.simps(1) dropWhile.simps(1))
  with B have A: "?A \<noteq> []" by blast
  have "last (py_strip s) = hd ?B" by (simp add: py_strip_def last_rev)
  moreover from B have "\<not> is_space (hd ?B)" by (rule hd_dropWhile)
  moreover have "hd (py_strip s) = last ?B" by (simp add: py_strip_def hd_rev)
  moreover from B have "last ?B = last (rev ?A)" by (rule last_dropWhile)
  moreover have "last (rev ?A) = hd ?A" by (simp add: last_rev)
  moreover from A have "\<not> is_space (hd ?A)" by (rule hd_dropWhile)
  ultimately show ?thesis by simp
qed

lemma py_strip_Nil: "py_strip [] = []"
  by (simp add: py_strip_def)

lemma py_strip_idem: "py_strip (py_strip s) = py_strip s"
proof (cases "py_strip s = []")
  case True
  with py_strip_Nil show ?thesis by simp
next
  case False
  with py_strip_ends [OF False] show ?thesis by (intro py_strip_id) auto
qed

lemma extract_price_text_stripped: "py_strip (extract_price_text p) = extract_price_text p"
  unfolding extract_price_text_def
  by (auto simp: py_strip_idem py_strip_Nil split: option.splits sum.splits)

declare wait_loop.simps [simp del]

lemma wait_loop_trace:
  assumes "wait_loop polls prev deadline i (poll_start polls now i) seen = (r, acts)"
  shows "\<exists>n\<ge>i. acts = replicate (n - i) (Sleep POLL_SLEEP_MS)
      \<and> (\<forall>j. i \<le> j \<and> j < n \<longrightarrow>
            poll_start polls now j < deadline \<and> \<not> price_changed prev (observed polls j))
      \<and> ((poll_start polls now n < deadline \<and> price_changed prev (observed polls n)
            \<and> r = observed polls n)
         \<or> (deadline \<le> poll_start polls now n
            \<and> r = py_strip (if n = i then (case seen of None \<Rightarrow> [] | Some t \<Rightarrow> t)
                             else observed polls (n - 1))))"
  using assms
proof (induction polls prev deadline i "poll_start polls now i" seen arbitrary: r acts
    rule: wait_loop.induct)
  case (1 polls prev deadline i seen)
  let ?t = "poll_start polls now i"
  show ?case
  proof (cases "?t < deadline")
    case False
    with "1.prems" have "r = py_strip (case seen of None \<Rightarrow> [] | Some t \<Rightarrow> t)" "acts = []"
      by (simp_all add: wait_loop.simps [of polls prev deadline i ?t seen])
    with False show ?thesis by (intro exI [of _ i]) auto
  next
    case True
    show ?thesis
    proof (cases "price_changed prev (observed polls i)")
      case changed: True
      with True "1.prems" have "r = py_strip (observed polls i)" "acts = []"
        by (simp_all add: wait_loop.simps [of polls prev deadline i ?t seen] observed_def)
      with True changed show ?thesis
        by (intro exI [of _ i]) (auto simp: observed_def extract_price_text_stripped)
    next
      case same: False
      obtain r' acts' where rec: "wait_loop polls prev deadline (Suc i)
          (poll_start polls now (Suc i)) (Some (observed polls i)) = (r', acts')"
        by (cases "wait_loop polls prev deadline (Suc i)
          (poll_start polls now (Suc i)) (Some (observed polls i))") auto
      with True same "1.prems" have ra: "r = r'" "acts = Sleep POLL_SLEEP_MS # acts'"
        by (simp_all add: wait_loop.simps [of polls prev deadline i ?t seen] observed_def)
      from True same have "\<not> price_changed prev (extract_price_text (fst (polls i)))"
        by (simp add: observed_def)
      from "1.hyps" [OF True refl this _ rec [unfolded observed_def]]
      obtain n where n: "Suc i \<le> n" "acts' = replicate (n - Suc i) (Sleep POLL_SLEEP_MS)"
        "\<forall>j. Suc i \<le> j \<and> j < n \<longrightarrow>
            poll_start polls now j < deadline \<and> \<not> price_changed prev (observed polls j)"
        "(poll_start polls now n < deadline \<and> price_changed prev (observed polls n)
            \<and> r' = observed polls n)
         \<or> (deadline \<le> poll_start polls now n
            \<and> r' = py_strip (if n = Suc i then (case Some (extract_price_text (fst (polls i))) of
                                 None \<Rightarrow> [] | Some t \<Rightarrow> t)
                             else observed polls (n - 1)))"
        by auto
      have a: "acts = replicate (n - i) (Sleep POLL_SLEEP_MS)"
        using ra(2) n(1,2) by (simp add: Suc_diff_le replicate_Suc [symmetric] del: replicate_Suc)
      have b: "\<forall>j. i \<le> j \<and> j < n \<longrightarrow>
            poll_start polls now j < deadline \<and> \<not> price_changed prev (observed polls j)"
      proof (intro allI impI)
        fix j assume "i \<le> j \<and> j < n"
        then consider "j = i" | "Suc i \<le> j \<and> j < n" by force
        then show "poll_start polls now j < deadline \<and> \<not> price_changed prev (observed polls j)"
          using True same n(3) by cases auto
      qed
      have c: "(poll_start polls now n < deadline \<and> price_changed prev (observed polls n)
            \<and> r = observed polls n)
         \<or> (deadline \<le> poll_start polls now n
            \<and> r = py_strip (if n = i then (case seen of None \<Rightarrow> [] | Some t \<Rightarrow> t)
                             else observed polls (n - 1)))"
      proof -
        from n(1) have ni: "n \<noteq> i" by simp
        have "(if n = Suc i then (case Some (extract_price_text (fst (polls i))) of
                                 None \<Rightarrow> [] | Some t \<Rightarrow> t)
               else observed polls (n - 1)) = observed polls (n - 1)"
          by (cases "n = Suc i") (simp_all add: observed_def)
        with n(4) ra(1) ni show ?thesis by simp
      qed
      from n(1) a b c show ?thesis by (intro exI [of _ n]) simp
    qed
  qed
qed


lemma poll_start_lower: "now + POLL_SLEEP_MS * i \<le> poll_start polls now i"
  by (induction i) auto

lemma unchanged_text:
  "\<not> price_changed prev txt \<Longrightarrow> txt = [] \<or> prev = Some txt"
  by (auto simp: price_changed_def split: option.splits if_splits)

lemma changed_text_nonempty: "price_changed prev txt \<Longrightarrow> txt \<noteq> []"
  by (auto simp: price_changed_def split: option.splits if_splits)

text \<open>
  Claim C4. For every previous text, supplied or absent, and all observations: the waiter
  polls, sleeping the fixed interval after every poll that does not end it, and returns
  the text of the first poll, begun before the deadline, whose text is non-empty and
  differs from the previous one (or is non-empty, when there is no previous one). If the
  deadline passes first, it returns the last observed text, which is empty or the previous
  text. An empty result is returned in that case only, and the result is all the caller
  gets: there is no separate sign of a timeout. The waiter makes at most 67 polls.
\<close>

theorem wait_for_price_update_contract:
  assumes "wait_for_price_update polls now prev = (r, acts)"
  shows "\<exists>n. acts = replicate n (Sleep POLL_SLEEP_MS)
      \<and> (\<forall>j<n. poll_start polls now j < now + MAX_WAIT_PRICE_MS
             \<and> \<not> price_changed prev (observed polls j))
      \<and> ((poll_start polls now n < now + MAX_WAIT_PRICE_MS
            \<and> price_changed prev (observed polls n) \<and> r = observed polls n \<and> r \<noteq> [])
         \<or> (now + MAX_WAIT_PRICE_MS \<le> poll_start polls now n \<and> 0 < n
            \<and> r = observed polls (n - 1) \<and> (r = [] \<or> prev = Some r)))
      \<and> n \<le> 67"
proof -
  let ?d = "now + MAX_WAIT_PRICE_MS"
  from assms have "wait_loop polls prev ?d 0 (poll_start polls now 0) None = (r, acts)"
    by (simp add: wait_for_price_update_def)
  from wait_loop_trace [OF this] obtain n where n:
    "acts = replicate n (Sleep POLL_SLEEP_MS)"
    "\<forall>j<n. poll_start polls now j < ?d \<and> \<not> price_changed prev (observed polls j)"
    "(poll_start polls now n < ?d \<and> price_changed prev (observed polls n) \<and> r = observed polls n)
     \<or> (?d \<le> poll_start polls now n
        \<and> r = py_strip (if n = 0 then (case None of None \<Rightarrow> [] | Some t \<Rightarrow> t)
                         else observed polls (n - 1)))"
    by auto
  have stripped: "py_strip (observed polls k) = observed polls k" for k
    by (simp add: observed_def extract_price_text_stripped)
  from n(3) have out: "(poll_start polls now n < ?d \<and> price_changed prev (observed polls n)
        \<and> r = observed polls n \<and> r \<noteq> [])
     \<or> (?d \<le> poll_start polls now n \<and> 0 < n \<and> r = observed polls (n - 1)
        \<and> (r = [] \<or> prev = Some r))"
  proof
    assume "poll_start polls now n < ?d \<and> price_changed prev (observed polls n)
      \<and> r = observed polls n"
    then show ?thesis using changed_text_nonempty [of prev "observed polls n"] by simp
  next
    assume t: "?d \<le> poll_start polls now n
        \<and> r = py_strip (if n = 0 then (case None of None \<Rightarrow> [] | Some t \<Rightarrow> t)
                         else observed polls (n - 1))"
    then have pos: "0 < n" by (cases n) (auto simp: MAX_WAIT_PRICE_MS_def)
    with t have r: "r = observed polls (n - 1)" by (simp add: stripped)
    from pos n(2) have "\<not> price_changed prev (observed polls (n - 1))" by simp
    with r have "r = [] \<or> prev = Some r" using unchanged_text by blast
    with t pos r show ?thesis by blast
  qed
  have "n \<le> 67"
  proof (rule ccontr)
    assume "\<not> n \<le> 67"
    then have "67 < n" by simp
    with n(2) have "poll_start polls now 67 < ?d" by blast
    moreover have "now + POLL_SLEEP_MS * 67 \<le> poll_start polls now 67" by (rule poll_start_lower)
    ultimately show False by (simp add: MAX_WAIT_PRICE_MS_def POLL_SLEEP_MS_def)
  qed
  with n(1,2) out show ?thesis by blast
qed

text \<open>
  A page whose price cell, in the main document, shows the text \<open>t\<close>; polls that
  show 10.00 twice and 10.25 from then on, each taking 40 ms; and polls that show 10.00
  for ever, each taking 6 s.
\<close>

definition price_page :: "pystr \<Rightarrow> page" where
  "price_page t =
     \<lparr>main_frame = 0, frames = [0],
      query_selector = (\<lambda>fr sel. Inr None),
      locator_count = (\<lambda>fr sel. if fr = 0 \<and> sel \<in> set PRICE_CELL_SELECTORS then Inr 1 else Inr 0),
      locator_inner_text = (\<lambda>fr sel. Inr t),
      frame_click = (\<lambda>fr sel. None),
      keyboard_press = (\<lambda>k. None),
      evaluate = (\<lambda>s. None)\<rparr>"

definition changing_polls :: "nat \<Rightarrow> page \<times> nat" where
  "changing_polls i = (price_page (if i < 2 then py '' 10.00'' else py ''10.25 ''), 40)"

definition stale_polls :: "nat \<Rightarrow> page \<times> nat" where
  "stale_polls i = (price_page (py ''10.00''), 6000)"

lemmas waiter_eval = wait_for_price_update_def wait_loop.simps extract_price_text_def
  locate_price_locator_def price_page_def PRICE_CELL_SELECTORS_def price_changed_def py_def
  py_strip_def is_space_def MAX_WAIT_PRICE_MS_def POLL_SLEEP_MS_def

theorem wait_for_price_update_contract_witness:
  "wait_for_price_update changing_polls 1000 (Some (py ''10.00''))
     = (py ''10.25'', [Sleep 150, Sleep 150])
   \<and> wait_for_price_update stale_polls 1000 (Some (py ''10.00''))
     = (py ''10.00'', [Sleep 150, Sleep 150])
   \<and> (\<exists>n. [Sleep 150, Sleep 150] = replicate n (Sleep POLL_SLEEP_MS)
        \<and> poll_start changing_polls 1000 n < 1000 + MAX_WAIT_PRICE_MS
        \<and> py ''10.25'' = observed changing_polls n)
   \<and> (\<exists>n. [Sleep 150, Sleep 150] = replicate n (Sleep POLL_SLEEP_MS)
        \<and> 1000 + MAX_WAIT_PRICE_MS \<le> poll_start stale_polls 1000 n
        \<and> py ''10.00'' = observed stale_polls (n - 1))"
proof -
  have 1: "wait_for_price_update changing_polls 1000 (Some (py ''10.00''))
     = (py ''10.25'', [Sleep 150, Sleep 150])"
    by (simp add: waiter_eval changing_polls_def)
  have 2: "wait_for_price_update stale_polls 1000 (Some (py ''10.00''))
     = (py ''10.00'', [Sleep 150, Sleep 150])"
    by (simp add: waiter_eval stale_polls_def)
  from wait_for_price_update_contract [OF 1] obtain n where n:
    "[Sleep 150, Sleep 150] = replicate n (Sleep POLL_SLEEP_MS)"
    "(poll_start changing_polls 1000 n < 1000 + MAX_WAIT_PRICE_MS
        \<and> py ''10.25'' = observed changing_polls n \<and> py ''10.25'' \<noteq> [])
     \<or> (1000 + MAX_WAIT_PRICE_MS \<le> poll_start changing_polls 1000 n
        \<and> (py ''10.25'' = [] \<or> Some (py ''10.00'') = Some (py ''10.25'')))"
    by blast
  have "py ''10.25'' \<noteq> [] \<and> py ''10.00'' \<noteq> py ''10.25''" by (simp add: py_def)
  with n have a: "\<exists>n. [Sleep 150, Sleep 150] = replicate n (Sleep POLL_SLEEP_MS)
        \<and> poll_start changing_polls 1000 n < 1000 + MAX_WAIT_PRICE_MS
        \<and> py ''10.25'' = observed changing_polls n" by auto
  from wait_for_price_update_contract [OF 2] obtain m where m:
    "[Sleep 150, Sleep 150] = replicate m (Sleep POLL_SLEEP_MS)"
    "(price_changed (Some (py ''10.00'')) (observed stale_polls m)
        \<and> py ''10.00'' = observed stale_polls m)
     \<or> (1000 + MAX_WAIT_PRICE_MS \<le> poll_start stale_polls 1000 m
        \<and> py ''10.00'' = observed stale_polls (m - 1))"
    by blast
  have "\<not> price_changed (Some (py ''10.00'')) (py ''10.00'')" by (simp add: price_changed_def)
  with m have b: "\<exists>n. [Sleep 150, Sleep 150] = replicate n (Sleep POLL_SLEEP_MS)
        \<and> 1000 + MAX_WAIT_PRICE_MS \<le> poll_start stale_polls 1000 n
        \<and> py ''10.00'' = observed stale_polls (n - 1)" by metis
  from 1 2 a b show ?thesis by blast
qed


section \<open>The run\<close>

text \<open>
  A \<^verbatim>\<open>date\<close> is its proleptic Gregorian ordinal (\<^verbatim>\<open>date.toordinal()\<close>): adding
  \<^verbatim>\<open>timedelta(days=1)\<close> adds one and dates compare as numbers. The library's parsing and
  formatting of dates (\<^verbatim>\<open>strptime\<close>, \<^verbatim>\<open>isoformat\<close>, \<^verbatim>\<open>strftime\<close>) are parameters,
  in \<open>env\<close>, with the local date, the platform name and what the browser answers:
  \<open>world E d k\<close> is what it answers during attempt \<open>k\<close> for day \<open>d\<close>, one page for each
  call the attempt makes. \<open>strptime\<close> is \<open>None\<close> where the library raises
  \<^verbatim>\<open>ValueError\<close>.

  The calls the program makes outside every \<^verbatim>\<open>try\<close> (starting the browser, loading the
  page, opening, writing and closing the file, reading the clock, sleeping) return
  normally in this model, and no date lies beyond \<^verbatim>\<open>date.max\<close>.
\<close>

type_synonym date = nat

record args =
  arg_url :: string
  arg_start_date :: string
  arg_out :: string
  arg_headful :: bool
  arg_slowmo :: nat
  arg_clean_price :: bool

record attempt_env =
  at_prev_page :: page
  at_date_page :: page
  at_enter_page :: page
  at_submit_page :: page
  at_clock :: nat
  at_polls :: "nat \<Rightarrow> page \<times> nat"
  at_reset_page :: page

record env =
  strptime :: "string \<Rightarrow> date option"
  today_local :: date
  isoformat :: "date \<Rightarrow> string"
  strftime_mdY :: "date \<Rightarrow> string"
  platform :: string
  login_polls :: "nat \<Rightarrow> page \<times> nat"
  world :: "date \<Rightarrow> nat \<Rightarrow> attempt_env"

text \<open>The delays of the source in milliseconds: 0.25 s, 0.35 s, and 0.8 s times the attempt.\<close>

definition WAIT_AFTER_SUBMIT_MS :: nat where
  "WAIT_AFTER_SUBMIT_MS = 250"

definition PER_DAY_RETRIES :: nat where
  "PER_DAY_RETRIES = 2"

definition POLITE_DELAY_BETWEEN_DAYS_MS :: nat where
  "POLITE_DELAY_BETWEEN_DAYS_MS = 350"

definition to_mmddyyyy :: "env \<Rightarrow> date \<Rightarrow> string" where
  "to_mmddyyyy E d = strftime_mdY E d"

text \<open>
  One attempt for one day, the body of the \<^verbatim>\<open>try\<close> in the day loop:
  \<^verbatim>\<open>
  prev_text = extract_price_text(page)
  if not set_date_anywhere(page, mmddyyyy):
      raise RuntimeError("Could not locate a date field ...")
  try:
      page.keyboard.press("Enter")
  except Exception:
      pass
  if not click_submit_anywhere(page):
      raise RuntimeError("Could not find/press the submit/update button.")
  time.sleep(WAIT_AFTER_SUBMIT_SEC)
  new_text = wait_for_price_update(page, prev_text if prev_text else None)
  price_out = clean_price(new_text) if args.clean_price else new_text
  writer.writerow([cur.isoformat(), price_out])
  time.sleep(POLITE_DELAY_BETWEEN_DAYS_SEC)
  break
  \<close>
  The result is what the attempt did and either the exception it raised or the price it
  wrote. The helpers catch every exception of the browser, so the two \<^verbatim>\<open>raise\<close>
  statements are the only ways the body raises.
\<close>

definition date_field_error :: exn where
  "date_field_error = Exn (''Could not locate a date field (tried multiple selectors and frames). ''
     @ ''If you just logged in, refresh or navigate to Account Overview.'')"

definition submit_error :: exn where
  "submit_error = Exn ''Could not find/press the submit/update button.''"

definition press_enter :: "page \<Rightarrow> action list" where
  "press_enter p = (case keyboard_press p ''Enter'' of None \<Rightarrow> [Press ''Enter''] | Some e \<Rightarrow> [])"

definition attempt_body :: "env \<Rightarrow> args \<Rightarrow> date \<Rightarrow> attempt_env \<Rightarrow> action list \<times> (exn + pystr)" where
  "attempt_body E a cur ae =
     (let prev_text = extract_price_text (at_prev_page ae);
          (acts1, date_ok) = set_date_anywhere (platform E) (at_date_page ae) (to_mmddyyyy E cur)
      in if \<not> date_ok then (acts1, Inl date_field_error)
         else
           (let acts2 = press_enter (at_enter_page ae);
                (acts3, submit_ok) = click_submit_anywhere (at_submit_page ae)
            in if \<not> submit_ok then (acts1 @ acts2 @ acts3, Inl submit_error)
               else
                 (let (new_text, sleeps) =
                        wait_for_price_update (at_polls ae) (at_clock ae)
                          (if prev_text \<noteq> [] then Some prev_text else None);
                      price_out = (if arg_clean_price a then clean_price new_text else new_text)
                  in (acts1 @ acts2 @ acts3 @ [Sleep WAIT_AFTER_SUBMIT_MS] @ sleeps
                        @ [WriteRow [py (isoformat E cur), price_out],
                           Sleep POLITE_DELAY_BETWEEN_DAYS_MS],
                      Inr price_out))))"

text \<open>
  The loop over the attempts and its \<^verbatim>\<open>except\<close> clause:
  \<^verbatim>\<open>
  for attempt in range(1, PER_DAY_RETRIES + 2):
      try:
          (the body above)
      except Exception as e:
          last_error = e
          if attempt <= PER_DAY_RETRIES:
              time.sleep(0.8 * attempt)
              try:
                  page.evaluate("window.scrollTo(0, 0);")
              except Exception:
                  pass
              continue
          sys.stderr.write("[WARN] {}: {}\n".format(cur.isoformat(), last_error))
          writer.writerow([cur.isoformat(), ""])
          time.sleep(POLITE_DELAY_BETWEEN_DAYS_SEC)
  \<close>
\<close>

definition scroll_reset :: "page \<Rightarrow> action list" where
  "scroll_reset p =
     (case evaluate p ''window.scrollTo(0, 0);'' of
        None \<Rightarrow> [Evaluate ''window.scrollTo(0, 0);'']
      | Some e \<Rightarrow> [])"

fun exn_str :: "exn \<Rightarrow> string" where
  "exn_str (Exn msg) = msg"

definition warn_line :: "env \<Rightarrow> date \<Rightarrow> exn \<Rightarrow> string" where
  "warn_line E cur last_error =
     ''[WARN] '' @ isoformat E cur @ '': '' @ exn_str last_error @ [CHR 0x0A]"

fun attempts :: "env \<Rightarrow> args \<Rightarrow> date \<Rightarrow> nat list \<Rightarrow> action list" where
  "attempts E a cur [] = []"
| "attempts E a cur (attempt # rest) =
     (case attempt_body E a cur (world E cur attempt) of
        (acts, Inr price_out) \<Rightarrow> acts
      | (acts, Inl e) \<Rightarrow>
          if attempt \<le> PER_DAY_RETRIES
          then acts @ [Sleep (800 * attempt)] @ scroll_reset (at_reset_page (world E cur attempt))
               @ attempts E a cur rest
          else acts @ [Stderr (warn_line E cur e), WriteRow [py (isoformat E cur), []],
                       Sleep POLITE_DELAY_BETWEEN_DAYS_MS]
               @ attempts E a cur rest)"

text \<open>
  \<^verbatim>\<open>
  cur = start
  while cur <= today_local:
      (the loop over the attempts)
      cur += timedelta(days=1)
  \<close>
\<close>

function day_loop :: "env \<Rightarrow> args \<Rightarrow> date \<Rightarrow> date \<Rightarrow> action list" where
  "day_loop E a today cur =
     (if cur \<le> today
      then attempts E a cur [1..<PER_DAY_RETRIES + 2] @ day_loop E a today (Suc cur)
      else [])"
  by pat_completeness auto
termination
  by (relation "measure (\<lambda>(E, a, today, cur). Suc today - cur)") auto

text \<open>
  The wait for a login, at most two minutes: \<open>polls i\<close> is the page that the \<open>i\<close>-th
  check sees and the time the check takes.
\<close>

definition login_ready :: "page \<Rightarrow> bool" where
  "login_ready p \<longleftrightarrow>
     (find_across_frames p DATE_INPUT_SELECTORS \<noteq> None
        \<or> find_across_frames p CONTENTEDITABLE_SELECTORS \<noteq> None)
     \<and> find_across_frames p SUBMIT_BUTTON_SELECTORS \<noteq> None"

function login_wait :: "(nat \<Rightarrow> page \<times> nat) \<Rightarrow> nat \<Rightarrow> nat \<Rightarrow> action list" where
  "login_wait polls i elapsed =
     (if elapsed < 120000
      then (if login_ready (fst (polls i)) then []
            else Sleep 500 # login_wait polls (Suc i) (elapsed + snd (polls i) + 500))
      else [])"
  by pat_completeness auto
termination
  by (relation "measure (\<lambda>(polls, i, elapsed). 120000 - elapsed)") auto

definition login_hint :: string where
  "login_hint = [CHR 0x0A] @ ''If you see a login page or MFA, complete it manually. ''
     @ ''Once you reach Account Overview, leave the tab open; the script will proceed.''
     @ [CHR 0x0A, CHR 0x0A]"

text \<open>
  \<open>run\<close>: the two checks of the start date, each ending the process with status 1
  (\<^verbatim>\<open>sys.exit(1)\<close>), then the browser session, which \<open>browser_session\<close> holds.
\<close>

definition browser_session :: "env \<Rightarrow> args \<Rightarrow> date \<Rightarrow> action list" where
  "browser_session E a start =
     [Launch (\<not> arg_headful a) (arg_slowmo a), NewContext, NewPage, Goto (arg_url a)]
     @ (if arg_headful a then [Stdout login_hint] else [])
     @ login_wait (login_polls E) 0 0
     @ [OpenCsv (arg_out a), WriteRow [py ''date'', py ''close'']]
     @ day_loop E a (today_local E) start
     @ [CloseCsv, BrowserClose, Stdout (''Done. Wrote CSV to: '' @ arg_out a @ [CHR 0x0A])]"

definition run :: "env \<Rightarrow> args \<Rightarrow> action list" where
  "run E a =
     (case strptime E (arg_start_date a) of
        None \<Rightarrow> [Stderr (''Error: --start-date must be YYYY-MM-DD'' @ [CHR 0x0A]), Exit 1]
      | Some start \<Rightarrow>
          if today_local E < start
          then [Stderr (''Error: --start-date cannot be in the future.'' @ [CHR 0x0A]), Exit 1]
          else browser_session E a start)"

text \<open>The rows of the output file: the rows written, in order.\<close>

fun csv_rows :: "action list \<Rightarrow> pystr list list" where
  "csv_rows [] = []"
| "csv_rows (WriteRow r # acts) = r # csv_rows acts"
| "csv_rows (x # acts) = csv_rows acts"

text \<open>
  In the words of the specification: the outcome of attempt \<open>k\<close> for a day, and the
  price of the day's row: the price of the first attempt that does not raise, or the
  empty string when every attempt raises.
\<close>

definition attempt_result :: "env \<Rightarrow> args \<Rightarrow> date \<Rightarrow> nat \<Rightarrow> exn + pystr" where
  "attempt_result E a d k = snd (attempt_body E a d (world E d k))"

fun first_success :: "(nat \<Rightarrow> exn + pystr) \<Rightarrow> nat list \<Rightarrow> pystr option" where
  "first_success f [] = None"
| "first_success f (k # ks) = (case f k of Inr v \<Rightarrow> Some v | Inl e \<Rightarrow> first_success f ks)"

definition day_close :: "env \<Rightarrow> args \<Rightarrow> date \<Rightarrow> pystr" where
  "day_close E a d =
     (case first_success (attempt_result E a d) [1..<PER_DAY_RETRIES + 2] of
        Some v \<Rightarrow> v
      | None \<Rightarrow> [])"


section \<open>The rows of a run\<close>

lemma csv_rows_append: "csv_rows (xs @ ys) = csv_rows xs @ csv_rows ys"
  by (induction xs rule: csv_rows.induct) auto

lemma csv_rows_replicate_Sleep: "csv_rows (replicate n (Sleep k)) = []"
  by (induction n) auto

lemma csv_rows_type_into: "csv_rows (fst (type_into pl p fr sel t)) = []"
  unfolding type_into_def by (auto split: sum.splits option.splits)

lemma csv_rows_try_candidates: "csv_rows (fst (try_candidates pl p sels t)) = []"
  unfolding try_candidates_def by (auto simp: csv_rows_type_into split: option.splits)

lemma csv_rows_set_date: "csv_rows (fst (set_date_anywhere pl p t)) = []"
  by (simp add: set_date_anywhere_cases csv_rows_append csv_rows_try_candidates)

lemma csv_rows_click_submit: "csv_rows (fst (click_submit_anywhere p)) = []"
  unfolding click_submit_anywhere_def by (auto split: option.splits)

lemma csv_rows_press_enter: "csv_rows (press_enter p) = []"
  unfolding press_enter_def by (auto split: option.splits)

lemma csv_rows_scroll_reset: "csv_rows (scroll_reset p) = []"
  unfolding scroll_reset_def by (auto split: option.splits)

lemma wait_for_price_update_sleeps:
  "\<exists>n. snd (wait_for_price_update polls now prev) = replicate n (Sleep POLL_SLEEP_MS)"
proof -
  obtain r acts where w: "wait_for_price_update polls now prev = (r, acts)"
    by (cases "wait_for_price_update polls now prev")
  then have "wait_loop polls prev (now + MAX_WAIT_PRICE_MS) 0 (poll_start polls now 0) None = (r, acts)"
    by (simp add: wait_for_price_update_def)
  from wait_loop_trace [OF this] w show ?thesis by auto
qed

lemma csv_rows_wait: "csv_rows (snd (wait_for_price_update polls now prev)) = []"
  using wait_for_price_update_sleeps [of polls now prev] by (auto simp: csv_rows_replicate_Sleep)

declare login_wait.simps [simp del]

lemma csv_rows_login_wait: "csv_rows (login_wait polls i elapsed) = []"
proof (induction polls i elapsed rule: login_wait.induct)
  case (1 polls i elapsed)
  then show ?case by (simp add: login_wait.simps [of polls i elapsed])
qed


text \<open>An attempt that raises writes no row; one that does not writes exactly its own.\<close>

lemma attempt_body_rows:
  "csv_rows (fst (attempt_body E a cur ae)) =
     (case snd (attempt_body E a cur ae) of
        Inl e \<Rightarrow> []
      | Inr v \<Rightarrow> [[py (isoformat E cur), v]])"
proof -
  obtain acts1 ok1 where sd:
    "set_date_anywhere (platform E) (at_date_page ae) (to_mmddyyyy E cur) = (acts1, ok1)"
    by (cases "set_date_anywhere (platform E) (at_date_page ae) (to_mmddyyyy E cur)")
  obtain acts3 ok3 where cs: "click_submit_anywhere (at_submit_page ae) = (acts3, ok3)"
    by (cases "click_submit_anywhere (at_submit_page ae)")
  obtain new_text sleeps where w: "wait_for_price_update (at_polls ae) (at_clock ae)
      (if extract_price_text (at_prev_page ae) \<noteq> [] then Some (extract_price_text (at_prev_page ae))
       else None) = (new_text, sleeps)"
    by (cases "wait_for_price_update (at_polls ae) (at_clock ae)
      (if extract_price_text (at_prev_page ae) \<noteq> [] then Some (extract_price_text (at_prev_page ae))
       else None)")
  have r1: "csv_rows acts1 = []" using csv_rows_set_date [of "platform E" "at_date_page ae"
      "to_mmddyyyy E cur"] sd by simp
  have r3: "csv_rows acts3 = []" using csv_rows_click_submit [of "at_submit_page ae"] cs by simp
  have rs: "csv_rows sleeps = []" using csv_rows_wait [of "at_polls ae" "at_clock ae"] w
    by (metis snd_conv)
  show ?thesis
    unfolding attempt_body_def Let_def sd cs w
    by (simp add: csv_rows_append r1 r3 rs csv_rows_press_enter)
qed

lemma attempt_rows_Inl:
  "attempt_result E a d k = Inl e \<Longrightarrow> csv_rows (fst (attempt_body E a d (world E d k))) = []"
  using attempt_body_rows [of E a d "world E d k"] by (simp add: attempt_result_def)

lemma attempt_rows_Inr:
  "attempt_result E a d k = Inr v \<Longrightarrow>
     csv_rows (fst (attempt_body E a d (world E d k))) = [[py (isoformat E d), v]]"
  using attempt_body_rows [of E a d "world E d k"] by (simp add: attempt_result_def)

lemma attempt_range: "[1..<PER_DAY_RETRIES + 2] = [1, 2, 3]"
  by (simp add: PER_DAY_RETRIES_def upt_rec)

text \<open>Unfolding one round of the loop over the attempts.\<close>

lemma attempts_success:
  "attempt_result E a d k = Inr v \<Longrightarrow>
     attempts E a d (k # rest) = fst (attempt_body E a d (world E d k))"
  by (cases "attempt_body E a d (world E d k)") (simp add: attempt_result_def)

lemma attempts_retry:
  "attempt_result E a d k = Inl e \<Longrightarrow> k \<le> PER_DAY_RETRIES \<Longrightarrow>
     attempts E a d (k # rest) =
       fst (attempt_body E a d (world E d k)) @ [Sleep (800 * k)]
       @ scroll_reset (at_reset_page (world E d k)) @ attempts E a d rest"
  by (cases "attempt_body E a d (world E d k)") (simp add: attempt_result_def)

lemma attempts_exhausted:
  "attempt_result E a d k = Inl e \<Longrightarrow> \<not> k \<le> PER_DAY_RETRIES \<Longrightarrow>
     attempts E a d (k # rest) =
       fst (attempt_body E a d (world E d k))
       @ [Stderr (warn_line E d e), WriteRow [py (isoformat E d), []],
          Sleep POLITE_DELAY_BETWEEN_DAYS_MS]
       @ attempts E a d rest"
  by (cases "attempt_body E a d (world E d k)") (simp add: attempt_result_def)

lemma attempts_rows:
  "csv_rows (attempts E a d [1..<PER_DAY_RETRIES + 2]) = [[py (isoformat E d), day_close E a d]]"
proof -
  have le: "(1::nat) \<le> PER_DAY_RETRIES" "(2::nat) \<le> PER_DAY_RETRIES" "\<not> (3::nat) \<le> PER_DAY_RETRIES"
    by (simp_all add: PER_DAY_RETRIES_def)
  have none: "csv_rows (attempts E a d []) = []" by simp
  show ?thesis
    unfolding attempt_range day_close_def
  proof (cases "attempt_result E a d 1")
    case (Inr v)
    have "first_success (attempt_result E a d) [1, 2, 3] = Some v"
      by (simp only: first_success.simps Inr sum.case)
    moreover have "csv_rows (attempts E a d [1, 2, 3]) = [[py (isoformat E d), v]]"
      by (simp only: attempts_success [OF Inr] attempt_rows_Inr [OF Inr])
    ultimately show "csv_rows (attempts E a d [1, 2, 3]) =
      [[py (isoformat E d), case first_success (attempt_result E a d) [1, 2, 3] of
          None \<Rightarrow> [] | Some v \<Rightarrow> v]]" by simp
  next
    case e1: (Inl e1)
    note r1 = attempts_retry [OF e1 le(1)] attempt_rows_Inl [OF e1]
    show "csv_rows (attempts E a d [1, 2, 3]) =
      [[py (isoformat E d), case first_success (attempt_result E a d) [1, 2, 3] of
          None \<Rightarrow> [] | Some v \<Rightarrow> v]]"
    proof (cases "attempt_result E a d 2")
      case (Inr v)
      have "first_success (attempt_result E a d) [1, 2, 3] = Some v"
        by (simp only: first_success.simps e1 Inr sum.case)
      moreover have "csv_rows (attempts E a d [1, 2, 3]) = [[py (isoformat E d), v]]"
        by (simp only: r1 attempts_success [OF Inr] attempt_rows_Inr [OF Inr] csv_rows_append
            csv_rows_scroll_reset csv_rows.simps append_Nil)
      ultimately show ?thesis by simp
    next
      case e2: (Inl e2)
      note r2 = attempts_retry [OF e2 le(2)] attempt_rows_Inl [OF e2]
      show ?thesis
      proof (cases "attempt_result E a d 3")
        case (Inr v)
        have "first_success (attempt_result E a d) [1, 2, 3] = Some v"
          by (simp only: first_success.simps e1 e2 Inr sum.case)
        moreover have "csv_rows (attempts E a d [1, 2, 3]) = [[py (isoformat E d), v]]"
          by (simp only: r1 r2 attempts_success [OF Inr] attempt_rows_Inr [OF Inr] csv_rows_append
              csv_rows_scroll_reset csv_rows.simps append_Nil)
        ultimately show ?thesis by simp
      next
        case e3: (Inl e3)
        have "first_success (attempt_result E a d) [1, 2, 3] = None"
          by (simp only: first_success.simps e1 e2 e3 sum.case)
        moreover have "csv_rows (attempts E a d [1, 2, 3]) = [[py (isoformat E d), []]]"
          by (simp only: r1 r2 attempts_exhausted [OF e3 le(3)] attempt_rows_Inl [OF e3]
              csv_rows_append csv_rows_scroll_reset csv_rows.simps append_Nil append_Nil2 none)
        ultimately show ?thesis by simp
      qed
    qed
  qed
qed

declare day_loop.simps [simp del]

lemma day_loop_rows:
  "csv_rows (day_loop E a today cur) =
     map (\<lambda>d. [py (isoformat E d), day_close E a d]) [cur..<Suc today]"
proof (induction E a today cur rule: day_loop.induct)
  case (1 E a today cur)
  show ?case
  proof (cases "cur \<le> today")
    case True
    then have "[cur..<Suc today] = cur # [Suc cur..<Suc today]" by (simp add: upt_conv_Cons)
    with True "1.IH" show ?thesis
      by (simp only: day_loop.simps [of E a today cur] csv_rows_append attempts_rows if_True
          list.map append_Cons append_Nil)
  next
    case False
    then have "[cur..<Suc today] = []" by simp
    with False show ?thesis by (simp only: day_loop.simps [of E a today cur] if_False csv_rows.simps list.map)
  qed
qed

lemma browser_session_rows:
  "csv_rows (browser_session E a start) =
     [py ''date'', py ''close'']
     # map (\<lambda>d. [py (isoformat E d), day_close E a d]) [start..<Suc (today_local E)]"
  by (simp add: browser_session_def csv_rows_append csv_rows_login_wait day_loop_rows del: upt_Suc)

lemma run_valid:
  "strptime E (arg_start_date a) = Some start \<Longrightarrow> start \<le> today_local E \<Longrightarrow>
     run E a = browser_session E a start"
  by (simp add: run_def)

text \<open>
  Claim C1. For every run whose start date parses and is not later than the local date,
  whatever the browser answers in any attempt: the output file is opened and its rows are
  the header \<open>date,close\<close> followed by exactly one row for each day from the start date
  to today, both included, in ascending order of the days, none twice and none missing.
  The row of a day holds the day's date and the price of the first attempt that did not
  raise, or the empty string.
\<close>

theorem run_one_row_per_day:
  assumes "strptime E (arg_start_date a) = Some start" and "start \<le> today_local E"
  shows "csv_rows (run E a) =
       [py ''date'', py ''close'']
       # map (\<lambda>d. [py (isoformat E d), day_close E a d]) [start..<Suc (today_local E)]
     \<and> length (csv_rows (run E a)) = 1 + (today_local E - start + 1)
     \<and> sorted_wrt (<) [start..<Suc (today_local E)]
     \<and> distinct [start..<Suc (today_local E)]
     \<and> set [start..<Suc (today_local E)] = {start..today_local E}
     \<and> OpenCsv (arg_out a) \<in> set (run E a)"
proof -
  have rows: "csv_rows (run E a) =
       [py ''date'', py ''close'']
       # map (\<lambda>d. [py (isoformat E d), day_close E a d]) [start..<Suc (today_local E)]"
    using assms by (simp add: run_valid browser_session_rows)
  moreover from assms(2) have "length (csv_rows (run E a)) = 1 + (today_local E - start + 1)"
    unfolding rows by (simp del: upt_Suc)
  moreover have "set [start..<Suc (today_local E)] = {start..today_local E}"
    by (simp only: set_upt atLeastLessThanSuc_atLeastAtMost)
  moreover have "OpenCsv (arg_out a) \<in> set (run E a)"
    using assms by (simp add: run_valid browser_session_def)
  moreover have "sorted_wrt (<) [start..<Suc (today_local E)]" by (rule sorted_wrt_upt)
  moreover have "distinct [start..<Suc (today_local E)]" by (rule distinct_upt)
  ultimately show ?thesis by blast
qed


section \<open>The checks of the start date\<close>

text \<open>
  What a run shows outside: its exit status (that of \<^verbatim>\<open>sys.exit\<close>, or 0), the lines on
  the diagnostic stream, and whether a browser was started.
\<close>

fun exit_status :: "action list \<Rightarrow> nat" where
  "exit_status [] = 0"
| "exit_status (Exit c # acts) = c"
| "exit_status (x # acts) = exit_status acts"

fun stderr_lines :: "action list \<Rightarrow> string list" where
  "stderr_lines [] = []"
| "stderr_lines (Stderr m # acts) = m # stderr_lines acts"
| "stderr_lines (x # acts) = stderr_lines acts"

definition browser_started :: "action list \<Rightarrow> bool" where
  "browser_started acts \<longleftrightarrow> (\<exists>headless slow_mo. Launch headless slow_mo \<in> set acts)"

fun no_check_failed :: "action \<Rightarrow> bool" where
  "no_check_failed (Exit c) = False"
| "no_check_failed (Stderr m) = (take 7 m = ''[WARN] '')"
| "no_check_failed x = True"

lemma ncf_type_into: "list_all no_check_failed (fst (type_into pl p fr sel t))"
  unfolding type_into_def by (auto split: sum.splits option.splits)

lemma ncf_try_candidates: "list_all no_check_failed (fst (try_candidates pl p sels t))"
  unfolding try_candidates_def by (auto simp: ncf_type_into split: option.splits)

lemma ncf_set_date: "list_all no_check_failed (fst (set_date_anywhere pl p t))"
  by (simp add: set_date_anywhere_cases ncf_try_candidates)

lemma ncf_click_submit: "list_all no_check_failed (fst (click_submit_anywhere p))"
  unfolding click_submit_anywhere_def by (auto split: option.splits)

lemma ncf_press_enter: "list_all no_check_failed (press_enter p)"
  unfolding press_enter_def by (auto split: option.splits)

lemma ncf_scroll_reset: "list_all no_check_failed (scroll_reset p)"
  unfolding scroll_reset_def by (auto split: option.splits)

lemma ncf_wait: "list_all no_check_failed (snd (wait_for_price_update polls now prev))"
  using wait_for_price_update_sleeps [of polls now prev] by (auto simp: list_all_iff)

lemma ncf_login_wait: "list_all no_check_failed (login_wait polls i elapsed)"
proof (induction polls i elapsed rule: login_wait.induct)
  case (1 polls i elapsed)
  then show ?case by (simp add: login_wait.simps [of polls i elapsed])
qed

lemma ncf_attempt_body: "list_all no_check_failed (fst (attempt_body E a cur ae))"
proof -
  obtain acts1 ok1 where sd:
    "set_date_anywhere (platform E) (at_date_page ae) (to_mmddyyyy E cur) = (acts1, ok1)"
    by (cases "set_date_anywhere (platform E) (at_date_page ae) (to_mmddyyyy E cur)")
  obtain acts3 ok3 where cs: "click_submit_anywhere (at_submit_page ae) = (acts3, ok3)"
    by (cases "click_submit_anywhere (at_submit_page ae)")
  obtain new_text sleeps where w: "wait_for_price_update (at_polls ae) (at_clock ae)
      (if extract_price_text (at_prev_page ae) \<noteq> [] then Some (extract_price_text (at_prev_page ae))
       else None) = (new_text, sleeps)"
    by (cases "wait_for_price_update (at_polls ae) (at_clock ae)
      (if extract_price_text (at_prev_page ae) \<noteq> [] then Some (extract_price_text (at_prev_page ae))
       else None)")
  have r1: "list_all no_check_failed acts1" using ncf_set_date [of "platform E" "at_date_page ae"
      "to_mmddyyyy E cur"] sd by simp
  have r3: "list_all no_check_failed acts3" using ncf_click_submit [of "at_submit_page ae"] cs by simp
  have rs: "list_all no_check_failed sleeps" using ncf_wait [of "at_polls ae" "at_clock ae"] w
    by (metis snd_conv)
  show ?thesis
    unfolding attempt_body_def Let_def sd cs w
    by (simp add: r1 r3 rs ncf_press_enter)
qed

lemma ncf_warn_line: "take 7 (warn_line E d e) = ''[WARN] ''"
  by (simp add: warn_line_def)

lemma ncf_attempts: "list_all no_check_failed (attempts E a d ks)"
proof (induction ks)
  case Nil
  then show ?case by simp
next
  case (Cons k ks)
  obtain acts res where b: "attempt_body E a d (world E d k) = (acts, res)"
    by (cases "attempt_body E a d (world E d k)")
  with ncf_attempt_body [of E a d "world E d k"] have "list_all no_check_failed acts" by simp
  with Cons b show ?case
    by (cases res) (simp_all add: ncf_scroll_reset ncf_warn_line)
qed

lemma ncf_day_loop: "list_all no_check_failed (day_loop E a today cur)"
proof (induction E a today cur rule: day_loop.induct)
  case (1 E a today cur)
  then show ?case by (simp add: day_loop.simps [of E a today cur] ncf_attempts)
qed

lemma ncf_browser_session: "list_all no_check_failed (browser_session E a start)"
  by (simp add: browser_session_def ncf_login_wait ncf_day_loop)

lemma exit_status_ncf: "list_all no_check_failed acts \<Longrightarrow> exit_status acts = 0"
  by (induction acts rule: exit_status.induct) auto

lemma stderr_lines_ncf:
  "list_all no_check_failed acts \<Longrightarrow> list_all (\<lambda>m. take 7 m = ''[WARN] '') (stderr_lines acts)"
  by (induction acts rule: stderr_lines.induct) auto

text \<open>
  Claim C9. When the start date does not parse, or is later than the local date, the run
  writes one error message to the diagnostic stream and exits with status 1, and no
  browser is started. For a start date that parses and is not in the future neither check
  triggers: the run is the browser session, it ends with status 0, and the only lines on
  the diagnostic stream are warnings.
\<close>

theorem run_start_date_checks:
  "(strptime E (arg_start_date a) = None \<longrightarrow>
       stderr_lines (run E a) = [''Error: --start-date must be YYYY-MM-DD'' @ [CHR 0x0A]]
     \<and> exit_status (run E a) = 1 \<and> \<not> browser_started (run E a))
   \<and> (\<forall>start. strptime E (arg_start_date a) = Some start \<and> today_local E < start \<longrightarrow>
       stderr_lines (run E a) = [''Error: --start-date cannot be in the future.'' @ [CHR 0x0A]]
     \<and> exit_status (run E a) = 1 \<and> \<not> browser_started (run E a))
   \<and> (\<forall>start. strptime E (arg_start_date a) = Some start \<and> start \<le> today_local E \<longrightarrow>
       run E a = browser_session E a start
     \<and> exit_status (run E a) = 0 \<and> browser_started (run E a)
     \<and> list_all (\<lambda>m. take 7 m = ''[WARN] '') (stderr_lines (run E a)))"
proof (intro conjI allI impI)
  fix start
  assume v: "strptime E (arg_start_date a) = Some start \<and> start \<le> today_local E"
  then show eq: "run E a = browser_session E a start" by (simp add: run_valid)
  have ncf: "list_all no_check_failed (run E a)" unfolding eq by (rule ncf_browser_session)
  then show "exit_status (run E a) = 0" by (rule exit_status_ncf)
  from ncf show "list_all (\<lambda>m. take 7 m = ''[WARN] '') (stderr_lines (run E a))"
    by (rule stderr_lines_ncf)
  show "browser_started (run E a)"
    unfolding eq browser_started_def browser_session_def by auto
qed (simp_all add: run_def browser_started_def)


section \<open>One day of the run\<close>

lemma day_loop_split:
  "cur \<le> d \<Longrightarrow> d \<le> today \<Longrightarrow>
     \<exists>pre. day_loop E a today cur =
       pre @ attempts E a d [1..<PER_DAY_RETRIES + 2] @ day_loop E a today (Suc d)"
proof (induction E a today cur rule: day_loop.induct)
  case (1 E a today cur)
  from "1.prems" have le: "cur \<le> today" by simp
  show ?case
  proof (cases "cur = d")
    case True
    with le have "day_loop E a today cur =
        [] @ attempts E a d [1..<PER_DAY_RETRIES + 2] @ day_loop E a today (Suc d)"
      by (simp only: day_loop.simps [of E a today d] if_True append_Nil)
    then show ?thesis by blast
  next
    case False
    with "1.prems" have "Suc cur \<le> d" by simp
    from "1.IH" [OF le this "1.prems"(2)] obtain pre where
      "day_loop E a today (Suc cur) =
         pre @ attempts E a d [1..<PER_DAY_RETRIES + 2] @ day_loop E a today (Suc d)" by blast
    with le have "day_loop E a today cur =
        (attempts E a cur [1..<PER_DAY_RETRIES + 2] @ pre)
        @ attempts E a d [1..<PER_DAY_RETRIES + 2] @ day_loop E a today (Suc d)"
      by (simp only: day_loop.simps [of E a today cur] if_True append_assoc)
    then show ?thesis by blast
  qed
qed

lemma run_split:
  assumes "strptime E (arg_start_date a) = Some start" "start \<le> d" "d \<le> today_local E"
  shows "\<exists>pre. run E a =
     pre @ attempts E a d [1..<PER_DAY_RETRIES + 2] @ day_loop E a (today_local E) (Suc d)
     @ [CloseCsv, BrowserClose, Stdout (''Done. Wrote CSV to: '' @ arg_out a @ [CHR 0x0A])]"
proof -
  from assms have "start \<le> today_local E" by simp
  with assms(1) have r: "run E a = browser_session E a start" by (rule run_valid)
  from day_loop_split [OF assms(2,3)] obtain pre where
    "day_loop E a (today_local E) start =
       pre @ attempts E a d [1..<PER_DAY_RETRIES + 2] @ day_loop E a (today_local E) (Suc d)"
    by blast
  then have "run E a =
     ([Launch (\<not> arg_headful a) (arg_slowmo a), NewContext, NewPage, Goto (arg_url a)]
       @ (if arg_headful a then [Stdout login_hint] else [])
       @ login_wait (login_polls E) 0 0
       @ [OpenCsv (arg_out a), WriteRow [py ''date'', py ''close'']] @ pre)
     @ attempts E a d [1..<PER_DAY_RETRIES + 2] @ day_loop E a (today_local E) (Suc d)
     @ [CloseCsv, BrowserClose, Stdout (''Done. Wrote CSV to: '' @ arg_out a @ [CHR 0x0A])]"
    unfolding r browser_session_def by (simp only: append_assoc)
  then show ?thesis by blast
qed

lemma run_row_of_day:
  assumes "strptime E (arg_start_date a) = Some start" "start \<le> d" "d \<le> today_local E"
  shows "csv_rows (run E a) ! Suc (d - start) = [py (isoformat E d), day_close E a d]"
proof -
  from assms have "start \<le> today_local E" by simp
  with assms(1) have "csv_rows (run E a) =
       [py ''date'', py ''close'']
       # map (\<lambda>d. [py (isoformat E d), day_close E a d]) [start..<Suc (today_local E)]"
    by (simp only: run_valid browser_session_rows)
  moreover from assms(2,3) have "d - start < length [start..<Suc (today_local E)]" by simp
  moreover from assms(2,3) have "[start..<Suc (today_local E)] ! (d - start) = d"
    by (simp del: upt_Suc)
  ultimately show ?thesis by (simp del: upt_Suc)
qed

lemma run_row_count:
  assumes "strptime E (arg_start_date a) = Some start" "start \<le> today_local E"
  shows "length (csv_rows (run E a)) = 1 + (today_local E - start + 1)"
  using assms by (simp add: run_valid browser_session_rows del: upt_Suc)

lemma per_day_bounds:
  "(1::nat) \<le> PER_DAY_RETRIES" "(2::nat) \<le> PER_DAY_RETRIES" "\<not> (3::nat) \<le> PER_DAY_RETRIES"
  "PER_DAY_RETRIES + 1 = 3"
  by (simp_all add: PER_DAY_RETRIES_def)

text \<open>
  Claim C2. For every day of the range on which every attempt raises: the run writes the
  warning \<open>[WARN] date: error\<close> with the error of the last attempt to the diagnostic
  stream, then the day's row with the empty string as price, and goes on with the next
  day; the run ends normally with a row for every day.
\<close>

theorem exhausted_day_row_and_warning:
  assumes "strptime E (arg_start_date a) = Some start" and "start \<le> d" and "d \<le> today_local E"
    and fails: "\<forall>k\<in>set [1..<PER_DAY_RETRIES + 2]. \<exists>e. attempt_result E a d k = Inl e"
  shows "\<exists>pre e. attempt_result E a d (PER_DAY_RETRIES + 1) = Inl e
      \<and> run E a =
          pre @ [Stderr (''[WARN] '' @ isoformat E d @ '': '' @ exn_str e @ [CHR 0x0A]),
                 WriteRow [py (isoformat E d), []], Sleep POLITE_DELAY_BETWEEN_DAYS_MS]
          @ day_loop E a (today_local E) (Suc d)
          @ [CloseCsv, BrowserClose, Stdout (''Done. Wrote CSV to: '' @ arg_out a @ [CHR 0x0A])]
      \<and> csv_rows (run E a) ! Suc (d - start) = [py (isoformat E d), []]
      \<and> length (csv_rows (run E a)) = 1 + (today_local E - start + 1)
      \<and> exit_status (run E a) = 0"
proof -
  from fails obtain e1 e2 e3 where e: "attempt_result E a d 1 = Inl e1"
    "attempt_result E a d 2 = Inl e2" "attempt_result E a d 3 = Inl e3"
    unfolding attempt_range by auto
  let ?A = "\<lambda>k. fst (attempt_body E a d (world E d k))"
  let ?R = "\<lambda>k. scroll_reset (at_reset_page (world E d k))"
  have att: "attempts E a d [1..<PER_DAY_RETRIES + 2] =
      (?A 1 @ [Sleep (800 * 1)] @ ?R 1 @ ?A 2 @ [Sleep (800 * 2)] @ ?R 2 @ ?A 3)
      @ [Stderr (warn_line E d e3), WriteRow [py (isoformat E d), []],
         Sleep POLITE_DELAY_BETWEEN_DAYS_MS]"
    unfolding attempt_range
    by (simp only: attempts_retry [OF e(1) per_day_bounds(1)]
        attempts_retry [OF e(2) per_day_bounds(2)] attempts_exhausted [OF e(3) per_day_bounds(3)]
        attempts.simps(1) append_assoc append_Nil2)
  from run_split [OF assms(1,2,3)] obtain pre where
    "run E a = pre @ attempts E a d [1..<PER_DAY_RETRIES + 2] @ day_loop E a (today_local E) (Suc d)
     @ [CloseCsv, BrowserClose, Stdout (''Done. Wrote CSV to: '' @ arg_out a @ [CHR 0x0A])]"
    by blast
  then have shape: "run E a =
      (pre @ ?A 1 @ [Sleep (800 * 1)] @ ?R 1 @ ?A 2 @ [Sleep (800 * 2)] @ ?R 2 @ ?A 3)
      @ [Stderr (''[WARN] '' @ isoformat E d @ '': '' @ exn_str e3 @ [CHR 0x0A]),
         WriteRow [py (isoformat E d), []], Sleep POLITE_DELAY_BETWEEN_DAYS_MS]
      @ day_loop E a (today_local E) (Suc d)
      @ [CloseCsv, BrowserClose, Stdout (''Done. Wrote CSV to: '' @ arg_out a @ [CHR 0x0A])]"
    unfolding att warn_line_def by (simp only: append_assoc)
  have fs: "first_success (attempt_result E a d) [1, 2, 3] = None"
    by (simp only: first_success.simps e sum.case)
  have "day_close E a d = []" unfolding day_close_def attempt_range fs by simp
  with run_row_of_day [OF assms(1,2,3)]
  have row: "csv_rows (run E a) ! Suc (d - start) = [py (isoformat E d), []]" by simp
  from assms have st: "start \<le> today_local E" by simp
  have cnt: "length (csv_rows (run E a)) = 1 + (today_local E - start + 1)"
    using assms(1) st by (rule run_row_count)
  have "run E a = browser_session E a start" using assms(1) st by (rule run_valid)
  then have ex: "exit_status (run E a) = 0"
    using ncf_browser_session [of E a start] by (simp add: exit_status_ncf)
  from e(3) have "attempt_result E a d (PER_DAY_RETRIES + 1) = Inl e3"
    by (simp only: per_day_bounds(4))
  with shape row cnt ex show ?thesis by blast
qed

text \<open>
  Claim C7. For every day of the range: when the attempts before attempt \<open>k\<close> raise and
  attempt \<open>k\<close>, within the retry budget, does not, the day's part of the run is the
  failed attempts, each followed by a sleep of 0.8 s times its number and the scroll to
  the top, and then attempt \<open>k\<close>; exactly one row is written for the day and it holds
  the price of attempt \<open>k\<close>. The scroll is an action when it returns and nothing when it
  raises; the next attempt follows in both cases.
\<close>

theorem retry_then_success_row:
  assumes "strptime E (arg_start_date a) = Some start" and "start \<le> d" and "d \<le> today_local E"
    and k: "1 < k" "k \<le> PER_DAY_RETRIES + 1"
    and fails: "\<forall>j\<in>set [1..<k]. \<exists>e. attempt_result E a d j = Inl e"
    and ok: "attempt_result E a d k = Inr v"
  shows "attempts E a d [1..<PER_DAY_RETRIES + 2] =
        concat (map (\<lambda>j. fst (attempt_body E a d (world E d j)) @ [Sleep (800 * j)]
                      @ scroll_reset (at_reset_page (world E d j))) [1..<k])
        @ fst (attempt_body E a d (world E d k))
     \<and> csv_rows (attempts E a d [1..<PER_DAY_RETRIES + 2]) = [[py (isoformat E d), v]]
     \<and> csv_rows (run E a) ! Suc (d - start) = [py (isoformat E d), v]
     \<and> (\<exists>pre. run E a =
          pre @ attempts E a d [1..<PER_DAY_RETRIES + 2] @ day_loop E a (today_local E) (Suc d)
          @ [CloseCsv, BrowserClose, Stdout (''Done. Wrote CSV to: '' @ arg_out a @ [CHR 0x0A])])
     \<and> (\<forall>p. scroll_reset p =
          (if evaluate p ''window.scrollTo(0, 0);'' = None
           then [Evaluate ''window.scrollTo(0, 0);''] else []))"
proof -
  from k have "k = 2 \<or> k = 3" by (auto simp: PER_DAY_RETRIES_def)
  then have trace: "attempts E a d [1..<PER_DAY_RETRIES + 2] =
        concat (map (\<lambda>j. fst (attempt_body E a d (world E d j)) @ [Sleep (800 * j)]
                      @ scroll_reset (at_reset_page (world E d j))) [1..<k])
        @ fst (attempt_body E a d (world E d k))
     \<and> day_close E a d = v"
  proof
    assume k2: "k = 2"
    have r12: "[1..<2] = [1::nat]" by (simp add: upt_rec)
    from fails obtain e1 where e1: "attempt_result E a d 1 = Inl e1" unfolding k2 r12 by auto
    from ok have ok2: "attempt_result E a d 2 = Inr v" unfolding k2 .
    have "attempts E a d [1, 2, 3] =
        concat (map (\<lambda>j. fst (attempt_body E a d (world E d j)) @ [Sleep (800 * j)]
                      @ scroll_reset (at_reset_page (world E d j))) [1])
        @ fst (attempt_body E a d (world E d 2))"
      by (simp only: attempts_retry [OF e1 per_day_bounds(1)] attempts_success [OF ok2]
          list.map concat.simps append_assoc append_Nil2)
    moreover have fs: "first_success (attempt_result E a d) [1, 2, 3] = Some v"
      by (simp only: first_success.simps e1 ok2 sum.case)
    moreover have "day_close E a d = v" unfolding day_close_def attempt_range fs by simp
    ultimately show ?thesis unfolding attempt_range k2 r12 by blast
  next
    assume k3: "k = 3"
    have r13: "[1..<3] = [1::nat, 2]" by (simp add: upt_rec)
    from fails obtain e1 e2 where e: "attempt_result E a d 1 = Inl e1"
      "attempt_result E a d 2 = Inl e2" unfolding k3 r13 by auto
    from ok have ok3: "attempt_result E a d 3 = Inr v" unfolding k3 .
    have "attempts E a d [1, 2, 3] =
        concat (map (\<lambda>j. fst (attempt_body E a d (world E d j)) @ [Sleep (800 * j)]
                      @ scroll_reset (at_reset_page (world E d j))) [1, 2])
        @ fst (attempt_body E a d (world E d 3))"
      by (simp only: attempts_retry [OF e(1) per_day_bounds(1)]
          attempts_retry [OF e(2) per_day_bounds(2)] attempts_success [OF ok3]
          list.map concat.simps append_assoc append_Nil2)
    moreover have fs: "first_success (attempt_result E a d) [1, 2, 3] = Some v"
      by (simp only: first_success.simps e ok3 sum.case)
    moreover have "day_close E a d = v" unfolding day_close_def attempt_range fs by simp
    ultimately show ?thesis unfolding attempt_range k3 r13 by blast
  qed
  then have dc: "day_close E a d = v" by simp
  have rows: "csv_rows (attempts E a d [1..<PER_DAY_RETRIES + 2]) = [[py (isoformat E d), v]]"
    using attempts_rows [of E a d] dc by simp
  have row: "csv_rows (run E a) ! Suc (d - start) = [py (isoformat E d), v]"
    using run_row_of_day [OF assms(1,2,3)] dc by simp
  have reset: "\<forall>p. scroll_reset p =
          (if evaluate p ''window.scrollTo(0, 0);'' = None
           then [Evaluate ''window.scrollTo(0, 0);''] else [])"
    by (auto simp: scroll_reset_def split: option.splits)
  from trace rows row run_split [OF assms(1,2,3)] reset show ?thesis by blast
qed


section \<open>A worked run\<close>

text \<open>
  A run over three days, 2025-01-17 to 2025-01-19 (ordinals 739268 to 739270), with
  \<^verbatim>\<open>--clean-price\<close>. On \<open>site_page t\<close> the date input and the submit button work
  and the price cell shows \<open>t\<close>; its scroll script raises. On the first day the
  first attempt succeeds. On the second day the first attempt finds no date field and the
  second succeeds. On the third day the submit button is missing in all three attempts.
\<close>

definition site_page :: "pystr \<Rightarrow> page" where
  "site_page t =
     \<lparr>main_frame = 0, frames = [0],
      query_selector = (\<lambda>fr sel.
         if fr = 0 \<and> (sel = ''input#asofDate'' \<or> sel = ''#customAsOfBal'')
         then Inr (Some \<lparr>el_is_visible = Inr True, el_click = None, el_type = (\<lambda>t. None)\<rparr>)
         else Inr None),
      locator_count = (\<lambda>fr sel. if fr = 0 \<and> sel \<in> set PRICE_CELL_SELECTORS then Inr 1 else Inr 0),
      locator_inner_text = (\<lambda>fr sel. Inr t),
      frame_click = (\<lambda>fr sel. None),
      keyboard_press = (\<lambda>k. None),
      evaluate = (\<lambda>s. Some (Exn ''Execution context was destroyed''))\<rparr>"

definition ok_attempt :: "pystr \<Rightarrow> pystr \<Rightarrow> attempt_env" where
  "ok_attempt old new =
     \<lparr>at_prev_page = site_page old, at_date_page = site_page old, at_enter_page = site_page old,
      at_submit_page = site_page old, at_clock = 5000,
      at_polls = (\<lambda>i. (site_page (if i < 1 then old else new), 40)),
      at_reset_page = site_page new\<rparr>"

definition failing_attempt :: "page \<Rightarrow> page \<Rightarrow> attempt_env" where
  "failing_attempt p q =
     \<lparr>at_prev_page = p, at_date_page = p, at_enter_page = p, at_submit_page = p, at_clock = 5000,
      at_polls = (\<lambda>i. (p, 40)), at_reset_page = q\<rparr>"

definition demo_env :: env where
  "demo_env =
     \<lparr>strptime = (\<lambda>s. if s = ''2025-01-17'' then Some 739268
                        else if s = ''2025-01-20'' then Some 739271 else None),
      today_local = 739270,
      isoformat = (\<lambda>d. if d = 739268 then ''2025-01-17'' else if d = 739269 then ''2025-01-18''
                         else ''2025-01-19''),
      strftime_mdY = (\<lambda>d. if d = 739268 then ''01/17/2025'' else if d = 739269 then ''01/18/2025''
                         else ''01/19/2025''),
      platform = ''linux'',
      login_polls = (\<lambda>i. (site_page [], 100)),
      world = (\<lambda>d k.
         if d = 739268 then ok_attempt [] (py ''$1,234.56'')
         else if d = 739269 then
           (if k = 1 then failing_attempt hidden_price_page (site_page [])
            else ok_attempt (py ''$1,234.56'') (py ''$1,240.00''))
         else failing_attempt input_page input_page)\<rparr>"

definition demo_args :: "string \<Rightarrow> args" where
  "demo_args start =
     \<lparr>arg_url = ''https://www.gapath2college.com/gadtpl/ao/overview.cs'',
      arg_start_date = start, arg_out = ''prices.csv'', arg_headful = False, arg_slowmo = 0,
      arg_clean_price = True\<rparr>"

lemmas page_eval = site_page_def input_page_def hidden_price_page_def
  find_across_frames_def DATE_INPUT_SELECTORS_def CONTENTEDITABLE_SELECTORS_def
  SUBMIT_BUTTON_SELECTORS_def PRICE_CELL_SELECTORS_def type_into_def try_candidates_def
  set_date_anywhere_def click_submit_anywhere_def select_all_key_def press_enter_def
  extract_price_text_def locate_price_locator_def

lemma clean_price_examples:
  "clean_price (py ''$1,234.56'') = py ''1234.56''"
  "clean_price (py ''$1,240.00'') = py ''1240.00''"
  by (simp_all add: price_eval)

lemma ok_attempt_body:
  "attempt_body demo_env (demo_args s) 739268 (ok_attempt [] (py ''$1,234.56''))
     = ([Click 0 ''input#asofDate'', Press ''Control+A'', Press ''Backspace'',
         TypeText 0 ''input#asofDate'' ''01/17/2025'', Press ''Enter'',
         FrameClick 0 ''#customAsOfBal'', Sleep 250, Sleep 150,
         WriteRow [py ''2025-01-17'', py ''1234.56''], Sleep 350], Inr (py ''1234.56''))"
proof -
  have w: "wait_for_price_update (at_polls (ok_attempt [] (py ''$1,234.56''))) 5000 None
      = (py ''$1,234.56'', [Sleep 150])"
    by (simp add: ok_attempt_def wait_for_price_update_def wait_loop.simps page_eval
        price_changed_def py_def py_strip_def is_space_def MAX_WAIT_PRICE_MS_def POLL_SLEEP_MS_def)
  have p: "extract_price_text (at_prev_page (ok_attempt [] (py ''$1,234.56''))) = []"
    by (simp add: ok_attempt_def page_eval py_strip_def)
  have s: "set_date_anywhere ''linux'' (at_date_page (ok_attempt [] (py ''$1,234.56''))) ''01/17/2025''
      = ([Click 0 ''input#asofDate'', Press ''Control+A'', Press ''Backspace'',
          TypeText 0 ''input#asofDate'' ''01/17/2025''], True)"
    by (simp add: ok_attempt_def page_eval)
  have c: "click_submit_anywhere (at_submit_page (ok_attempt [] (py ''$1,234.56'')))
      = ([FrameClick 0 ''#customAsOfBal''], True)"
    by (simp add: ok_attempt_def page_eval)
  have e: "press_enter (at_enter_page (ok_attempt [] (py ''$1,234.56''))) = [Press ''Enter'']"
    by (simp add: ok_attempt_def page_eval)
  have k: "at_clock (ok_attempt [] (py ''$1,234.56'')) = 5000" by (simp add: ok_attempt_def)
  show ?thesis
    unfolding attempt_body_def
    by (simp add: Let_def demo_env_def demo_args_def to_mmddyyyy_def p s c e w k clean_price_examples
        WAIT_AFTER_SUBMIT_MS_def POLITE_DELAY_BETWEEN_DAYS_MS_def)
qed


lemma retry_attempt_body:
  "attempt_body demo_env (demo_args s) 739269 (ok_attempt (py ''$1,234.56'') (py ''$1,240.00''))
     = ([Click 0 ''input#asofDate'', Press ''Control+A'', Press ''Backspace'',
         TypeText 0 ''input#asofDate'' ''01/18/2025'', Press ''Enter'',
         FrameClick 0 ''#customAsOfBal'', Sleep 250, Sleep 150,
         WriteRow [py ''2025-01-18'', py ''1240.00''], Sleep 350], Inr (py ''1240.00''))"
proof -
  have p: "extract_price_text (at_prev_page (ok_attempt (py ''$1,234.56'') (py ''$1,240.00'')))
      = py ''$1,234.56''"
    by (simp add: ok_attempt_def page_eval py_strip_def py_def is_space_def)
  have w: "wait_for_price_update (at_polls (ok_attempt (py ''$1,234.56'') (py ''$1,240.00''))) 5000
        (Some (py ''$1,234.56''))
      = (py ''$1,240.00'', [Sleep 150])"
    by (simp add: ok_attempt_def wait_for_price_update_def wait_loop.simps page_eval
        price_changed_def py_def py_strip_def is_space_def MAX_WAIT_PRICE_MS_def POLL_SLEEP_MS_def)
  have s: "set_date_anywhere ''linux''
        (at_date_page (ok_attempt (py ''$1,234.56'') (py ''$1,240.00''))) ''01/18/2025''
      = ([Click 0 ''input#asofDate'', Press ''Control+A'', Press ''Backspace'',
          TypeText 0 ''input#asofDate'' ''01/18/2025''], True)"
    by (simp add: ok_attempt_def page_eval)
  have c: "click_submit_anywhere (at_submit_page (ok_attempt (py ''$1,234.56'') (py ''$1,240.00'')))
      = ([FrameClick 0 ''#customAsOfBal''], True)"
    by (simp add: ok_attempt_def page_eval)
  have e: "press_enter (at_enter_page (ok_attempt (py ''$1,234.56'') (py ''$1,240.00'')))
      = [Press ''Enter'']"
    by (simp add: ok_attempt_def page_eval)
  have k: "at_clock (ok_attempt (py ''$1,234.56'') (py ''$1,240.00'')) = 5000"
    by (simp add: ok_attempt_def)
  have ne: "py ''$1,234.56'' \<noteq> []" by (simp add: py_def)
  show ?thesis
    unfolding attempt_body_def
    by (simp add: Let_def demo_env_def demo_args_def to_mmddyyyy_def p s c e w k ne clean_price_examples
        WAIT_AFTER_SUBMIT_MS_def POLITE_DELAY_BETWEEN_DAYS_MS_def)
qed

lemma no_date_attempt_body:
  "attempt_body demo_env (demo_args s) d (failing_attempt hidden_price_page (site_page []))
     = ([], Inl date_field_error)"
  unfolding attempt_body_def
  by (simp add: failing_attempt_def demo_env_def to_mmddyyyy_def page_eval)

lemma no_submit_attempt_body:
  "attempt_body demo_env (demo_args s) 739270 (failing_attempt input_page input_page)
     = ([Click 0 ''input#asofDate'', Press ''Control+A'', Press ''Backspace'',
         TypeText 0 ''input#asofDate'' ''01/19/2025'', Press ''Enter''], Inl submit_error)"
  unfolding attempt_body_def
  by (simp add: failing_attempt_def demo_env_def to_mmddyyyy_def page_eval)

lemma demo_results:
  "attempt_result demo_env (demo_args s) 739268 1 = Inr (py ''1234.56'')"
  "attempt_result demo_env (demo_args s) 739269 1 = Inl date_field_error"
  "attempt_result demo_env (demo_args s) 739269 2 = Inr (py ''1240.00'')"
  "attempt_result demo_env (demo_args s) 739270 1 = Inl submit_error"
  "attempt_result demo_env (demo_args s) 739270 2 = Inl submit_error"
  "attempt_result demo_env (demo_args s) 739270 3 = Inl submit_error"
proof -
  have w: "world demo_env 739268 1 = ok_attempt [] (py ''$1,234.56'')"
    "world demo_env 739269 1 = failing_attempt hidden_price_page (site_page [])"
    "world demo_env 739269 2 = ok_attempt (py ''$1,234.56'') (py ''$1,240.00'')"
    "world demo_env 739270 1 = failing_attempt input_page input_page"
    "world demo_env 739270 2 = failing_attempt input_page input_page"
    "world demo_env 739270 3 = failing_attempt input_page input_page"
    by (simp_all add: demo_env_def)
  show "attempt_result demo_env (demo_args s) 739268 1 = Inr (py ''1234.56'')"
    "attempt_result demo_env (demo_args s) 739269 1 = Inl date_field_error"
    "attempt_result demo_env (demo_args s) 739269 2 = Inr (py ''1240.00'')"
    "attempt_result demo_env (demo_args s) 739270 1 = Inl submit_error"
    "attempt_result demo_env (demo_args s) 739270 2 = Inl submit_error"
    "attempt_result demo_env (demo_args s) 739270 3 = Inl submit_error"
    unfolding attempt_result_def w
    by (simp_all only: ok_attempt_body retry_attempt_body no_date_attempt_body
        no_submit_attempt_body snd_conv)
qed

lemma demo_results_first:
  "attempt_result demo_env (demo_args s) 739268 (Suc 0) = Inr (py ''1234.56'')"
  "attempt_result demo_env (demo_args s) 739269 (Suc 0) = Inl date_field_error"
  "attempt_result demo_env (demo_args s) 739270 (Suc 0) = Inl submit_error"
  using demo_results [of s] by simp_all

lemma demo_day_close:
  "day_close demo_env (demo_args s) 739268 = py ''1234.56''"
  "day_close demo_env (demo_args s) 739269 = py ''1240.00''"
  "day_close demo_env (demo_args s) 739270 = []"
  unfolding day_close_def attempt_range
  by (simp_all only: first_success.simps demo_results sum.case option.case)

lemma demo_parse:
  "strptime demo_env (arg_start_date (demo_args ''2025-01-17'')) = Some 739268"
  "strptime demo_env (arg_start_date (demo_args ''2025-01-20'')) = Some 739271"
  "strptime demo_env (arg_start_date (demo_args ''17/01/2025'')) = None"
  "today_local demo_env = 739270"
  by (simp_all add: demo_env_def demo_args_def)

lemma demo_days: "[739268..<Suc 739270] = [739268, 739269, 739270]"
  by (simp add: upt_rec)

theorem run_one_row_per_day_witness:
  "strptime demo_env (arg_start_date (demo_args ''2025-01-17'')) = Some 739268
   \<and> 739268 \<le> today_local demo_env
   \<and> csv_rows (run demo_env (demo_args ''2025-01-17'')) =
       [[py ''date'', py ''close''],
        [py ''2025-01-17'', py ''1234.56''],
        [py ''2025-01-18'', py ''1240.00''],
        [py ''2025-01-19'', []]]"
proof -
  have le: "739268 \<le> today_local demo_env" by (simp add: demo_parse)
  have iso: "isoformat demo_env 739268 = ''2025-01-17''" "isoformat demo_env 739269 = ''2025-01-18''"
    "isoformat demo_env 739270 = ''2025-01-19''" by (simp_all add: demo_env_def)
  from run_one_row_per_day [OF demo_parse(1) le]
  have "csv_rows (run demo_env (demo_args ''2025-01-17'')) =
       [py ''date'', py ''close'']
       # map (\<lambda>d. [py (isoformat demo_env d), day_close demo_env (demo_args ''2025-01-17'') d])
           [739268..<Suc (today_local demo_env)]" by blast
  then show ?thesis
    unfolding demo_parse(4) demo_days
    by (simp add: demo_parse le demo_day_close iso)
qed

theorem run_start_date_checks_witness:
  "strptime demo_env (arg_start_date (demo_args ''17/01/2025'')) = None
   \<and> stderr_lines (run demo_env (demo_args ''17/01/2025''))
       = [''Error: --start-date must be YYYY-MM-DD'' @ [CHR 0x0A]]
   \<and> exit_status (run demo_env (demo_args ''17/01/2025'')) = 1
   \<and> \<not> browser_started (run demo_env (demo_args ''17/01/2025''))
   \<and> strptime demo_env (arg_start_date (demo_args ''2025-01-20'')) = Some 739271
   \<and> today_local demo_env < 739271
   \<and> stderr_lines (run demo_env (demo_args ''2025-01-20''))
       = [''Error: --start-date cannot be in the future.'' @ [CHR 0x0A]]
   \<and> exit_status (run demo_env (demo_args ''2025-01-20'')) = 1
   \<and> \<not> browser_started (run demo_env (demo_args ''2025-01-20''))
   \<and> strptime demo_env (arg_start_date (demo_args ''2025-01-17'')) = Some 739268
   \<and> 739268 \<le> today_local demo_env
   \<and> exit_status (run demo_env (demo_args ''2025-01-17'')) = 0
   \<and> browser_started (run demo_env (demo_args ''2025-01-17''))"
proof -
  have lt: "today_local demo_env < 739271" and le: "739268 \<le> today_local demo_env"
    by (simp_all add: demo_parse)
  from run_start_date_checks [of demo_env "demo_args ''17/01/2025''"] demo_parse(3)
  have a: "stderr_lines (run demo_env (demo_args ''17/01/2025''))
       = [''Error: --start-date must be YYYY-MM-DD'' @ [CHR 0x0A]]
     \<and> exit_status (run demo_env (demo_args ''17/01/2025'')) = 1
     \<and> \<not> browser_started (run demo_env (demo_args ''17/01/2025''))" by blast
  from run_start_date_checks [of demo_env "demo_args ''2025-01-20''"] demo_parse(2) lt
  have b: "stderr_lines (run demo_env (demo_args ''2025-01-20''))
       = [''Error: --start-date cannot be in the future.'' @ [CHR 0x0A]]
     \<and> exit_status (run demo_env (demo_args ''2025-01-20'')) = 1
     \<and> \<not> browser_started (run demo_env (demo_args ''2025-01-20''))" by blast
  from run_start_date_checks [of demo_env "demo_args ''2025-01-17''"] demo_parse(1) le
  have c: "exit_status (run demo_env (demo_args ''2025-01-17'')) = 0
     \<and> browser_started (run demo_env (demo_args ''2025-01-17''))" by blast
  from a have a1: "stderr_lines (run demo_env (demo_args ''17/01/2025''))
       = [''Error: --start-date must be YYYY-MM-DD'' @ [CHR 0x0A]]"
    and a2: "exit_status (run demo_env (demo_args ''17/01/2025'')) = 1"
    and a3: "\<not> browser_started (run demo_env (demo_args ''17/01/2025''))" by simp_all
  from b have b1: "stderr_lines (run demo_env (demo_args ''2025-01-20''))
       = [''Error: --start-date cannot be in the future.'' @ [CHR 0x0A]]"
    and b2: "exit_status (run demo_env (demo_args ''2025-01-20'')) = 1"
    and b3: "\<not> browser_started (run demo_env (demo_args ''2025-01-20''))" by simp_all
  from c have c1: "exit_status (run demo_env (demo_args ''2025-01-17'')) = 0"
    and c2: "browser_started (run demo_env (demo_args ''2025-01-17''))" by simp_all
  show ?thesis
    by (intro conjI demo_parse(1,2,3) a1 a2 a3 b1 b2 b3 c1 c2 lt le)
qed

theorem exhausted_day_row_and_warning_witness:
  "attempt_result demo_env (demo_args ''2025-01-17'') 739270 1 = Inl submit_error
   \<and> attempt_result demo_env (demo_args ''2025-01-17'') 739270 2 = Inl submit_error
   \<and> attempt_result demo_env (demo_args ''2025-01-17'') 739270 3 = Inl submit_error
   \<and> (\<exists>pre. run demo_env (demo_args ''2025-01-17'') =
         pre @ [Stderr (''[WARN] 2025-01-19: Could not find/press the submit/update button.''
                        @ [CHR 0x0A]),
               WriteRow [py ''2025-01-19'', []], Sleep 350,
               CloseCsv, BrowserClose, Stdout (''Done. Wrote CSV to: prices.csv'' @ [CHR 0x0A])])
   \<and> csv_rows (run demo_env (demo_args ''2025-01-17'')) ! 3 = [py ''2025-01-19'', []]
   \<and> length (csv_rows (run demo_env (demo_args ''2025-01-17''))) = 4
   \<and> exit_status (run demo_env (demo_args ''2025-01-17'')) = 0"
proof -
  let ?a = "demo_args ''2025-01-17''"
  have le: "(739268::nat) \<le> 739270" "739270 \<le> today_local demo_env" by (simp_all add: demo_parse)
  have fails: "\<forall>k\<in>set [1..<PER_DAY_RETRIES + 2]. \<exists>e. attempt_result demo_env ?a 739270 k = Inl e"
    unfolding attempt_range by (simp add: demo_results demo_results_first)
  from exhausted_day_row_and_warning [OF demo_parse(1) le fails] obtain pre e where *:
    "attempt_result demo_env ?a 739270 (PER_DAY_RETRIES + 1) = Inl e"
    "run demo_env ?a =
          pre @ [Stderr (''[WARN] '' @ isoformat demo_env 739270 @ '': '' @ exn_str e @ [CHR 0x0A]),
                 WriteRow [py (isoformat demo_env 739270), []], Sleep POLITE_DELAY_BETWEEN_DAYS_MS]
          @ day_loop demo_env ?a (today_local demo_env) (Suc 739270)
          @ [CloseCsv, BrowserClose, Stdout (''Done. Wrote CSV to: '' @ arg_out ?a @ [CHR 0x0A])]"
    "csv_rows (run demo_env ?a) ! Suc (739270 - 739268) = [py (isoformat demo_env 739270), []]"
    "length (csv_rows (run demo_env ?a)) = 1 + (today_local demo_env - 739268 + 1)"
    "exit_status (run demo_env ?a) = 0"
    by blast
  from *(1) have "attempt_result demo_env ?a 739270 3 = Inl e" by (simp only: per_day_bounds(4))
  with demo_results(6) [of "''2025-01-17''"] have e: "e = submit_error" by simp
  have iso: "isoformat demo_env 739270 = ''2025-01-19''" by (simp add: demo_env_def)
  have fin: "day_loop demo_env ?a (today_local demo_env) (Suc 739270) = []"
    by (simp add: day_loop.simps demo_parse)
  have out: "arg_out ?a = ''prices.csv''" by (simp add: demo_args_def)
  from *(2) have shape: "run demo_env ?a =
         pre @ [Stderr (''[WARN] 2025-01-19: Could not find/press the submit/update button.''
                        @ [CHR 0x0A]),
               WriteRow [py ''2025-01-19'', []], Sleep 350,
               CloseCsv, BrowserClose, Stdout (''Done. Wrote CSV to: prices.csv'' @ [CHR 0x0A])]"
    unfolding e iso fin out by (simp add: submit_error_def POLITE_DELAY_BETWEEN_DAYS_MS_def)
  have c1: "\<exists>pre. run demo_env ?a =
         pre @ [Stderr (''[WARN] 2025-01-19: Could not find/press the submit/update button.''
                        @ [CHR 0x0A]),
               WriteRow [py ''2025-01-19'', []], Sleep 350,
               CloseCsv, BrowserClose, Stdout (''Done. Wrote CSV to: prices.csv'' @ [CHR 0x0A])]"
    using shape by (intro exI)
  have idx: "Suc (739270 - 739268) = (3::nat)" by simp
  from *(3) have c2: "csv_rows (run demo_env ?a) ! 3 = [py ''2025-01-19'', []]"
    unfolding iso idx .
  from *(4) have c3: "length (csv_rows (run demo_env ?a)) = 4" by (simp add: demo_parse)
  show ?thesis
    by (intro conjI demo_results(4,5,6) c1 c2 c3 *(5))
qed

theorem retry_then_success_row_witness:
  "attempt_result demo_env (demo_args ''2025-01-17'') 739269 1 = Inl date_field_error
   \<and> attempt_result demo_env (demo_args ''2025-01-17'') 739269 2 = Inr (py ''1240.00'')
   \<and> attempts demo_env (demo_args ''2025-01-17'') 739269 [1..<PER_DAY_RETRIES + 2] =
       [Sleep 800,
        Click 0 ''input#asofDate'', Press ''Control+A'', Press ''Backspace'',
        TypeText 0 ''input#asofDate'' ''01/18/2025'', Press ''Enter'',
        FrameClick 0 ''#customAsOfBal'', Sleep 250, Sleep 150,
        WriteRow [py ''2025-01-18'', py ''1240.00''], Sleep 350]
   \<and> csv_rows (attempts demo_env (demo_args ''2025-01-17'') 739269 [1..<PER_DAY_RETRIES + 2])
       = [[py ''2025-01-18'', py ''1240.00'']]
   \<and> csv_rows (run demo_env (demo_args ''2025-01-17'')) ! 2 = [py ''2025-01-18'', py ''1240.00'']"
proof -
  let ?a = "demo_args ''2025-01-17''"
  have le: "(739268::nat) \<le> 739269" "739269 \<le> today_local demo_env" by (simp_all add: demo_parse)
  have k: "(1::nat) < 2" "(2::nat) \<le> PER_DAY_RETRIES + 1" by (simp_all add: PER_DAY_RETRIES_def)
  have r12: "[1..<2] = [1::nat]" by (simp add: upt_rec)
  have fails: "\<forall>j\<in>set [1..<2]. \<exists>e. attempt_result demo_env ?a 739269 j = Inl e"
    unfolding r12 by (simp add: demo_results demo_results_first)
  have iso: "isoformat demo_env 739269 = ''2025-01-18''" by (simp add: demo_env_def)
  have w: "world demo_env 739269 1 = failing_attempt hidden_price_page (site_page [])"
    "world demo_env 739269 2 = ok_attempt (py ''$1,234.56'') (py ''$1,240.00'')"
    by (simp_all add: demo_env_def)
  have reset: "scroll_reset (at_reset_page (failing_attempt hidden_price_page (site_page []))) = []"
    by (simp add: scroll_reset_def failing_attempt_def site_page_def)
  from retry_then_success_row [OF demo_parse(1) le k fails demo_results(3)]
  have *: "attempts demo_env ?a 739269 [1..<PER_DAY_RETRIES + 2] =
        concat (map (\<lambda>j. fst (attempt_body demo_env ?a 739269 (world demo_env 739269 j))
                      @ [Sleep (800 * j)]
                      @ scroll_reset (at_reset_page (world demo_env 739269 j))) [1..<2])
        @ fst (attempt_body demo_env ?a 739269 (world demo_env 739269 2))"
    "csv_rows (attempts demo_env ?a 739269 [1..<PER_DAY_RETRIES + 2])
       = [[py (isoformat demo_env 739269), py ''1240.00'']]"
    "csv_rows (run demo_env ?a) ! Suc (739269 - 739268) = [py (isoformat demo_env 739269), py ''1240.00'']"
    by blast+
  from *(1) have "attempts demo_env ?a 739269 [1..<PER_DAY_RETRIES + 2] =
       [Sleep 800,
        Click 0 ''input#asofDate'', Press ''Control+A'', Press ''Backspace'',
        TypeText 0 ''input#asofDate'' ''01/18/2025'', Press ''Enter'',
        FrameClick 0 ''#customAsOfBal'', Sleep 250, Sleep 150,
        WriteRow [py ''2025-01-18'', py ''1240.00''], Sleep 350]"
    by (simp only: r12 list.map concat.simps w reset retry_attempt_body no_date_attempt_body
        fst_conv append_Nil append_Nil2 mult_1_right append_Cons)
  note c1 = this
  have idx: "Suc (739269 - 739268) = (2::nat)" by simp
  from *(3) have c2: "csv_rows (run demo_env ?a) ! 2 = [py ''2025-01-18'', py ''1240.00'']"
    unfolding iso idx .
  from *(2) have c3: "csv_rows (attempts demo_env ?a 739269 [1..<PER_DAY_RETRIES + 2])
       = [[py ''2025-01-18'', py ''1240.00'']]" unfolding iso .
  show ?thesis
    by (intro conjI demo_results(2,3) c1 c2 c3)
qed

end
